theory Spec2Isabelle
  imports Complex_Main "HOL-Library.Word"
begin

section \<open>The TSPLIB loader of VROOM (src/loaders/tsplib\_loader.h)\<close>

text \<open>
  The class \<^verbatim>\<open>tsplib_loader\<close> parses a TSPLIB text, builds the distance matrix in its
  constructor and prints a tour in \<^verbatim>\<open>get_route\<close>. The constructor is embedded as a
  function from the input text to either the exception it throws or the constructed
  object; everything it takes from the C++ standard library (regular expressions,
  \<^verbatim>\<open>std::stoul\<close>, formatted extraction from an \<^verbatim>\<open>istringstream\<close>, \<^verbatim>\<open>std::to_string\<close>) is
  written out below as far as the constructor uses it.

  Conventions.
  \<^item> \<^verbatim>\<open>std::size_t\<close> and \<^verbatim>\<open>unsigned long\<close> have 64 bits and \<^verbatim>\<open>int\<close> has 32. A
    \<^verbatim>\<open>std::size_t\<close> is a natural number below \<open>2 ^ 64\<close>; the only subtraction on it
    (\<^verbatim>\<open>_dimension - 1\<close>) has its wrap-around written out in \<open>size_sub\<close>, and no loop
    index is incremented beyond a bound that is itself below \<open>2 ^ 64\<close>.
  \<^item> A \<^verbatim>\<open>double\<close> is an IEEE 754 binary64 value. \<^verbatim>\<open>+\<close>, \<^verbatim>\<open>-\<close>, \<^verbatim>\<open>*\<close>, \<^verbatim>\<open>/\<close> and
    \<^verbatim>\<open>std::sqrt\<close> give the exact result rounded to the nearest \<^verbatim>\<open>double\<close>, ties to even,
    each operation on its own (no fused multiply-add, no extended precision); a decimal
    literal is rounded in the same way. \<^verbatim>\<open>std::cos\<close> and \<^verbatim>\<open>std::acos\<close> are not determined
    to the last bit by the language or by IEEE 754: they are parameters of the model.
  \<^item> A conversion from \<^verbatim>\<open>double\<close> to an integer type whose result does not fit has
    undefined behaviour in C++; here it yields \<open>None\<close>.
  \<^item> Running out of memory (\<^verbatim>\<open>std::bad_alloc\<close> for a huge dimension) is not modelled.
\<close>

subsection \<open>Types that the loader takes from headers outside the sources\<close>

text \<open>
  Modelled from the spec: \<^verbatim>\<open>structures/typedefs.h\<close> and \<^verbatim>\<open>structures/matrix.h\<close> are not
  among the sources. The spec gives an index as a non-negative integer in \<open>[0, N)\<close>, a
  distance as a non-negative integer, and a matrix as a dense square array of distances
  of size \<open>N \<times> N\<close> indexed \<open>[i][j]\<close>. An index is a \<open>nat\<close>; a distance is an unsigned
  machine integer whose width \<open>'w\<close> is left open; a matrix is the list of its rows, and
  the matrix constructed from a dimension holds zero everywhere (a value-initialised
  \<^verbatim>\<open>std::vector\<close>).
\<close>

type_synonym index_t = nat

type_synonym 'w distance_t = "'w word"

type_synonym 'w matrix_t = "'w word list list"

definition new_matrix :: "nat \<Rightarrow> 'w::len matrix_t" where
  "new_matrix n = replicate n (replicate n 0)"

text \<open>The assignment \<^verbatim>\<open>m[i][j] = v\<close>.\<close>

definition mset :: "'a list list \<Rightarrow> nat \<Rightarrow> nat \<Rightarrow> 'a \<Rightarrow> 'a list list" where
  "mset m i j v = m[i := (m ! i)[j := v]]"

subsection \<open>The type \<^verbatim>\<open>double\<close>\<close>

text \<open>
  A \<^verbatim>\<open>double\<close> is a number with its sign bit (\<open>True\<close> for a set sign bit, so that
  \<open>Number True 0\<close> is \<open>-0.0\<close>) and its magnitude, an infinity or a NaN. A magnitude \<open>x\<close> in
  the binade \<open>[2 ^ e, 2 ^ (e + 1))\<close> is a multiple of \<open>2 ^ (e - 52)\<close>; below \<open>2 ^ -1022\<close>
  (the subnormal numbers) it is a multiple of \<open>2 ^ -1074\<close>. \<open>rnd x\<close> is the multiple
  nearest to \<open>x \<ge> 0\<close>, the even one of two that are equally near; a rounded magnitude of
  \<open>2 ^ 1024\<close> or more is an overflow and gives an infinity.
\<close>

datatype double = Number bool real | Infinity bool | NaN bool

definition round_even :: "real \<Rightarrow> int" where
  "round_even y =
     (if y - of_int \<lfloor>y\<rfloor> < 1 / 2 then \<lfloor>y\<rfloor>
      else if 1 / 2 < y - of_int \<lfloor>y\<rfloor> then \<lfloor>y\<rfloor> + 1
      else if even \<lfloor>y\<rfloor> then \<lfloor>y\<rfloor> else \<lfloor>y\<rfloor> + 1)"

definition binade :: "real \<Rightarrow> int" where
  "binade x = max (- 1022) \<lfloor>log 2 x\<rfloor>"

definition ulp :: "real \<Rightarrow> real" where
  "ulp x = 2 powi (binade x - 52)"

definition rnd :: "real \<Rightarrow> real" where
  "rnd x = of_int (round_even (x / ulp x)) * ulp x"

definition with_sign :: "bool \<Rightarrow> real \<Rightarrow> real" where
  "with_sign s a = (if s then - a else a)"

text \<open>
  The \<^verbatim>\<open>double\<close> of sign \<open>s\<close> nearest to the magnitude \<open>a\<close>, and the \<^verbatim>\<open>double\<close> nearest to an
  exact result \<open>v\<close>: its sign is the sign of \<open>v\<close>, also when \<open>v\<close> is rounded to zero, and
  \<open>zs\<close>, which the operation determines, when \<open>v\<close> is zero.
\<close>

definition rounded :: "bool \<Rightarrow> real \<Rightarrow> double" where
  "rounded s a = (if 2 ^ 1024 \<le> rnd a then Infinity s else Number s (rnd a))"

definition round_result :: "bool \<Rightarrow> real \<Rightarrow> double" where
  "round_result zs v = rounded (if v = 0 then zs else v < 0) \<bar>v\<bar>"

text \<open>
  A decimal literal of the source, and the conversions of an \<^verbatim>\<open>int\<close> and of a
  \<^verbatim>\<open>distance_t\<close> to \<^verbatim>\<open>double\<close> (exact below \<open>2 ^ 53\<close>).
\<close>

definition double_literal :: "real \<Rightarrow> double" where
  "double_literal v = round_result False v"

definition double_of_int :: "int \<Rightarrow> double" where
  "double_of_int k = round_result False (of_int k)"

definition double_of_unsigned :: "'w::len word \<Rightarrow> double" where
  "double_of_unsigned t = round_result False (real (unat t))"

text \<open>
  The operations. A sum that is exactly zero is \<open>-0.0\<close> only when both operands have the
  sign bit set; a product or quotient has the exclusive or of the two sign bits. The sign
  of a NaN that an operation produces is not determined by C++; it is never observed,
  because every value computed by these operations ends in a conversion to an integer,
  which is undefined for a NaN.
\<close>

fun fneg :: "double \<Rightarrow> double" where
  "fneg (Number s a) = Number (\<not> s) a"
| "fneg (Infinity s) = Infinity (\<not> s)"
| "fneg (NaN s) = NaN (\<not> s)"

fun fadd :: "double \<Rightarrow> double \<Rightarrow> double" where
  "fadd (Number s a) (Number t b) = round_result (s \<and> t) (with_sign s a + with_sign t b)"
| "fadd (Number s a) (Infinity t) = Infinity t"
| "fadd (Infinity s) (Number t b) = Infinity s"
| "fadd (Infinity s) (Infinity t) = (if s = t then Infinity s else NaN True)"
| "fadd (NaN s) y = NaN s"
| "fadd x (NaN t) = NaN t"

definition fsub :: "double \<Rightarrow> double \<Rightarrow> double" where
  "fsub x y = fadd x (fneg y)"

fun fmul :: "double \<Rightarrow> double \<Rightarrow> double" where
  "fmul (Number s a) (Number t b) = round_result (s \<noteq> t) (with_sign s a * with_sign t b)"
| "fmul (Number s a) (Infinity t) = (if a = 0 then NaN True else Infinity (s \<noteq> t))"
| "fmul (Infinity s) (Number t b) = (if b = 0 then NaN True else Infinity (s \<noteq> t))"
| "fmul (Infinity s) (Infinity t) = Infinity (s \<noteq> t)"
| "fmul (NaN s) y = NaN s"
| "fmul x (NaN t) = NaN t"

fun fdiv :: "double \<Rightarrow> double \<Rightarrow> double" where
  "fdiv (Number s a) (Number t b) =
     (if b = 0 then (if a = 0 then NaN True else Infinity (s \<noteq> t))
      else round_result (s \<noteq> t) (with_sign s a / with_sign t b))"
| "fdiv (Number s a) (Infinity t) = Number (s \<noteq> t) 0"
| "fdiv (Infinity s) (Number t b) = Infinity (s \<noteq> t)"
| "fdiv (Infinity s) (Infinity t) = NaN True"
| "fdiv (NaN s) y = NaN s"
| "fdiv x (NaN t) = NaN t"

fun fsqrt :: "double \<Rightarrow> double" where
  "fsqrt (Number s a) =
     (if a = 0 then Number s 0 else if s then NaN True else rounded False (sqrt a))"
| "fsqrt (Infinity s) = (if s then NaN True else Infinity False)"
| "fsqrt (NaN s) = NaN s"

fun fceil :: "double \<Rightarrow> double" where
  "fceil (Number s a) = Number s \<bar>of_int \<lceil>with_sign s a\<rceil>\<bar>"
| "fceil (Infinity s) = Infinity s"
| "fceil (NaN s) = NaN s"

fun fless :: "double \<Rightarrow> double \<Rightarrow> bool" where
  "fless (Number s a) (Number t b) = (with_sign s a < with_sign t b)"
| "fless (Number s a) (Infinity t) = (\<not> t)"
| "fless (Infinity s) (Number t b) = s"
| "fless (Infinity s) (Infinity t) = (s \<and> \<not> t)"
| "fless (NaN s) y = False"
| "fless x (NaN t) = False"

text \<open>
  The values of the C++ type among the values of the datatype: the magnitude of a number
  is its own rounding and below the overflow threshold.
\<close>

fun is_double :: "double \<Rightarrow> bool" where
  "is_double (Number s a) = (0 \<le> a \<and> rnd a = a \<and> a < 2 ^ 1024)"
| "is_double (Infinity s) = True"
| "is_double (NaN s) = True"

text \<open>
  \<^verbatim>\<open>std::cos\<close> and \<^verbatim>\<open>std::acos\<close> of \<^verbatim>\<open><cmath>\<close>, as the platform provides them.
\<close>

record cmath =
  cos_d :: "double \<Rightarrow> double"
  acos_d :: "double \<Rightarrow> double"

subsection \<open>Data of the class\<close>

datatype EWT = EWT_NONE | EXPLICIT | EUC_2D | CEIL_2D | GEO | ATT

datatype EWF = EWF_NONE | FULL_MATRIX | UPPER_ROW | UPPER_DIAG_ROW | LOWER_DIAG_ROW

record Node =
  node_index :: index_t
  node_x :: double
  node_y :: double

record 'd tsplib_loader =
  dimension :: nat
  ewt :: EWT
  ewf :: EWF
  data_section :: string
  matrix :: "'d list list"
  nodes :: "Node list"

text \<open>
  What the constructor can end with instead of an object: the \<^verbatim>\<open>custom_exception\<close>s
  it throws, the \<^verbatim>\<open>std::out_of_range\<close> of \<^verbatim>\<open>std::stoul\<close>, a failed \<^verbatim>\<open>assert\<close>, and a
  conversion with undefined behaviour.
\<close>

datatype error =
    Incorrect_DIMENSION
  | Stoul_out_of_range
  | Incorrect_EDGE_WEIGHT_TYPE
  | Unsupported_EDGE_WEIGHT_TYPE string
  | Incorrect_EDGE_WEIGHT_FORMAT
  | Unsupported_EDGE_WEIGHT_FORMAT string
  | Incorrect_EDGE_WEIGHT_SECTION
  | Incorrect_NODE_COORD_SECTION
  | Assertion_failed
  | Undefined_conversion

subsection \<open>Regular expressions\<close>

text \<open>
  \<^verbatim>\<open>std::regex\<close> with the default (ECMAScript) grammar is a backtracking matcher: at
  every point the alternatives are tried in a fixed order, greedy quantifiers try one
  more iteration first, and the first complete match found is the result.
  \<open>rests r (cap, s)\<close> lists, in that order, every way of matching \<open>r\<close> at the start of
  \<open>s\<close>: what is left of \<open>s\<close>, and the text of the capture group \<open>Grp\<close> if it has been
  passed. An iteration of \<open>Star\<close> that consumes nothing is rejected, as in ECMAScript.
  Only the first capture group of each expression is read by the loader, so only that
  one is marked.
\<close>

datatype rx = Eps | Cls "char list" | Cat rx rx | Opt rx | Star rx | Grp rx

type_synonym mstate = "string option \<times> string"

function (sequential) rests :: "rx \<Rightarrow> mstate \<Rightarrow> mstate list" where
  "rests Eps st = [st]"
| "rests (Cls cs) (cap, []) = []"
| "rests (Cls cs) (cap, c # s) = (if c \<in> set cs then [(cap, s)] else [])"
| "rests (Cat a b) st = concat (map (rests b) (rests a st))"
| "rests (Opt a) st = rests a st @ [st]"
| "rests (Star a) st =
     concat (map (\<lambda>t. if length (snd t) < length (snd st) then rests (Star a) t else [])
                 (rests a st)) @ [st]"
| "rests (Grp a) (cap, s) =
     map (\<lambda>(c, t). (Some (take (length s - length t) s), t)) (rests a (cap, s))"
  by pat_completeness auto
termination
  by (relation "measure size <*lex*> measure (\<lambda>st. length (snd st))") auto

definition Plus :: "rx \<Rightarrow> rx" where
  "Plus r = Cat r (Star r)"

fun Lit :: "string \<Rightarrow> rx" where
  "Lit [] = Eps"
| "Lit (c # s) = Cat (Cls [c]) (Lit s)"

fun Seq :: "rx list \<Rightarrow> rx" where
  "Seq [] = Eps"
| "Seq [r] = r"
| "Seq (r # rs) = Cat r (Seq rs)"

definition digit_chars :: "char list" where
  "digit_chars = ''0123456789''"

definition space_chars :: "char list" where
  "space_chars = [CHR '' '', CHR 0x09, CHR 0x0A, CHR 0x0B, CHR 0x0C, CHR 0x0D]"

definition digit :: rx where
  "digit = Cls digit_chars"

definition upper :: rx where
  "upper = Cls ''ABCDEFGHIJKLMNOPQRSTUVWXYZ''"

definition space :: rx where
  "space = Cls space_chars"

text \<open>
  \<open>match_at\<close> is the match that starts at the first character of \<open>s\<close>, giving the text
  of group 1; \<^verbatim>\<open>std::regex_search\<close> takes the leftmost start at which there is one.
\<close>

definition match_at :: "rx \<Rightarrow> string \<Rightarrow> string option" where
  "match_at r s =
     (case rests r (None, s) of
        [] \<Rightarrow> None
      | (cap, t) # _ \<Rightarrow> Some (case cap of None \<Rightarrow> [] | Some g \<Rightarrow> g))"

fun regex_search :: "rx \<Rightarrow> string \<Rightarrow> string option" where
  "regex_search r [] = match_at r []"
| "regex_search r (c # s) =
     (case match_at r (c # s) of Some g \<Rightarrow> Some g | None \<Rightarrow> regex_search r s)"

text \<open>The five expressions of the constructor.\<close>

definition dim_rgx :: rx where
  "dim_rgx = Seq [Lit ''DIMENSION'', Star space, Cls '':'', Star space,
                  Grp (Plus digit), space]"

definition ewt_rgx :: rx where
  "ewt_rgx = Seq [Lit ''EDGE_WEIGHT_TYPE'', Star space, Cls '':'', Star space,
                  Grp (Cat (Plus upper) (Opt (Lit ''_2D''))), space]"

definition ewf_rgx :: rx where
  "ewf_rgx = Seq [Lit ''EDGE_WEIGHT_FORMAT'', Star space, Cls '':'', Star space,
                  Grp (Seq [Plus upper, Cat (Cls ''_'') (Plus upper),
                            Opt (Cat (Cls ''_'') (Plus upper))]),
                  space]"

definition ews_rgx :: rx where
  "ews_rgx = Seq [Lit ''EDGE_WEIGHT_SECTION'', Star space,
                  Grp (Plus (Cat (Plus digit) (Plus space)))]"

definition coord_rx :: rx where
  "coord_rx = Seq [Opt (Cls ''-''), Star digit,
                   Opt (Seq [Cls ''.'', Star digit,
                             Opt (Seq [Cls ''e'', Cls ''+'', Plus digit])])]"

definition ncs_rgx :: rx where
  "ncs_rgx = Seq [Lit ''NODE_COORD_SECTION'', Plus space,
                  Grp (Plus (Seq [Plus digit, Plus space,
                                  Cat coord_rx (Plus space),
                                  Cat coord_rx (Plus space)]))]"

subsection \<open>Decimal numbers\<close>

definition digit_val :: "char \<Rightarrow> nat" where
  "digit_val c = of_char c - 48"

definition nat_of_digits :: "string \<Rightarrow> nat" where
  "nat_of_digits ds = foldl (\<lambda>n c. 10 * n + digit_val c) 0 ds"

text \<open>
  \<^verbatim>\<open>std::stoul\<close> on a string of decimal digits (all that \<open>dim_rgx\<close> captures): the
  value, or \<^verbatim>\<open>std::out_of_range\<close> when it does not fit \<^verbatim>\<open>unsigned long\<close> (64 bits).
\<close>

definition stoul :: "string \<Rightarrow> error + nat" where
  "stoul ds = (if nat_of_digits ds < 2 ^ 64 then Inr (nat_of_digits ds)
               else Inl Stoul_out_of_range)"

text \<open>\<^verbatim>\<open>a - b\<close> on \<^verbatim>\<open>std::size_t\<close>, for \<open>a, b < 2 ^ 64\<close>.\<close>

definition size_sub :: "nat \<Rightarrow> nat \<Rightarrow> nat" where
  "size_sub a b = (a + 2 ^ 64 - b) mod 2 ^ 64"

subsection \<open>The input stream on the data section\<close>

text \<open>
  \<^verbatim>\<open>std::istringstream\<close>: the characters not yet read and two state bits. The extraction
  \<^verbatim>\<open>data >> v\<close> of an unsigned integer (C++11):
  \<^item> on a stream that is not good it sets \<^verbatim>\<open>failbit\<close> and leaves \<open>v\<close> as it was;
  \<^item> it skips white space; at the end of the text it sets both bits and leaves \<open>v\<close>
    as it was;
  \<^item> it reads the digits; without a digit it stores 0 and sets \<^verbatim>\<open>failbit\<close>; a value
    too large for the type stores the largest value and sets \<^verbatim>\<open>failbit\<close>; reaching
    the end of the text while reading sets \<^verbatim>\<open>eofbit\<close>.
  The stream of the constructor holds text matched by \<open>ews_rgx\<close>, digits and white
  space only; a sign, which the extraction would accept in front of the digits, never
  occurs there and is not modelled apart from other characters.
\<close>

record istream =
  buf :: string
  eofbit :: bool
  failbit :: bool

definition istringstream :: "string \<Rightarrow> istream" where
  "istringstream s = \<lparr>buf = s, eofbit = False, failbit = False\<rparr>"

definition good :: "istream \<Rightarrow> bool" where
  "good s = (\<not> eofbit s \<and> \<not> failbit s)"

definition isspace :: "char \<Rightarrow> bool" where
  "isspace c = (c \<in> set space_chars)"

definition isdigit :: "char \<Rightarrow> bool" where
  "isdigit c = (c \<in> set digit_chars)"

definition read_unsigned :: "istream \<Rightarrow> 'w::len word \<Rightarrow> istream \<times> 'w word" where
  "read_unsigned s v =
     (if \<not> good s then (s\<lparr>failbit := True\<rparr>, v)
      else
        let b = dropWhile isspace (buf s) in
        if b = [] then (s\<lparr>buf := [], eofbit := True, failbit := True\<rparr>, v)
        else
          let ds = takeWhile isdigit b;
              r = dropWhile isdigit b;
              s' = s\<lparr>buf := r, eofbit := (r = [])\<rparr>
          in if ds = [] then (s\<lparr>buf := b, failbit := True\<rparr>, 0)
             else if 2 ^ LENGTH('w) \<le> nat_of_digits ds then (s'\<lparr>failbit := True\<rparr>, - 1)
             else (s', of_nat (nat_of_digits ds)))"

subsection \<open>Loops\<close>

text \<open>
  \<^verbatim>\<open>for(std::size_t k = i; k < n; ++k) body\<close> and the same with \<^verbatim>\<open>k <= n\<close>, on a state
  that the body updates.
\<close>

function for_loop :: "nat \<Rightarrow> nat \<Rightarrow> (nat \<Rightarrow> 'a \<Rightarrow> 'a) \<Rightarrow> 'a \<Rightarrow> 'a" where
  "for_loop i n body st = (if i < n then for_loop (Suc i) n body (body i st) else st)"
  by pat_completeness auto
termination
  by (relation "measure (\<lambda>(i, n, body, st). n - i)") auto

function for_loop_le :: "nat \<Rightarrow> nat \<Rightarrow> (nat \<Rightarrow> 'a \<Rightarrow> 'a) \<Rightarrow> 'a \<Rightarrow> 'a" where
  "for_loop_le i n body st = (if i \<le> n then for_loop_le (Suc i) n body (body i st) else st)"
  by pat_completeness auto
termination
  by (relation "measure (\<lambda>(i, n, body, st). Suc n - i)") auto

declare for_loop.simps [simp del]
declare for_loop_le.simps [simp del]

subsection \<open>Distance functions\<close>

text \<open>
  \<^verbatim>\<open>(int) x\<close> truncates towards zero and is defined only when the result fits a 32-bit
  \<^verbatim>\<open>int\<close>; the conversion of a \<^verbatim>\<open>double\<close> to the unsigned \<^verbatim>\<open>distance_t\<close> likewise. An
  \<^verbatim>\<open>int\<close> converts to \<^verbatim>\<open>distance_t\<close> modulo \<open>2 ^ w\<close>.
\<close>

definition trunc_zero :: "real \<Rightarrow> int" where
  "trunc_zero x = (if 0 \<le> x then \<lfloor>x\<rfloor> else \<lceil>x\<rceil>)"

fun int_cast :: "double \<Rightarrow> int option" where
  "int_cast (Number s a) =
     (if - (2 ^ 31) \<le> trunc_zero (with_sign s a) \<and> trunc_zero (with_sign s a) < 2 ^ 31
      then Some (trunc_zero (with_sign s a)) else None)"
| "int_cast (Infinity s) = None"
| "int_cast (NaN s) = None"

fun distance_cast :: "double \<Rightarrow> 'w::len word option" where
  "distance_cast (Number s a) =
     (if 0 \<le> trunc_zero (with_sign s a) \<and> trunc_zero (with_sign s a) < 2 ^ LENGTH('w)
      then Some (word_of_int (trunc_zero (with_sign s a))) else None)"
| "distance_cast (Infinity s) = None"
| "distance_cast (NaN s) = None"

definition nint :: "double \<Rightarrow> 'w::len word option" where
  "nint x = map_option word_of_int (int_cast (fadd x (double_literal (1 / 2))))"

definition euc_2D :: "Node \<Rightarrow> Node \<Rightarrow> 'w::len word option" where
  "euc_2D i j =
     (let xd = fsub (node_x i) (node_x j);
          yd = fsub (node_y i) (node_y j)
      in nint (fsqrt (fadd (fmul xd xd) (fmul yd yd))))"

definition ceil_2D :: "Node \<Rightarrow> Node \<Rightarrow> 'w::len word option" where
  "ceil_2D i j =
     (let xd = fsub (node_x i) (node_x j);
          yd = fsub (node_y i) (node_y j)
      in distance_cast (fceil (fsqrt (fadd (fmul xd xd) (fmul yd yd)))))"

text \<open>In \<^verbatim>\<open>t < r\<close> the \<^verbatim>\<open>distance_t\<close> is converted to \<^verbatim>\<open>double\<close>.\<close>

definition att :: "Node \<Rightarrow> Node \<Rightarrow> 'w::len word option" where
  "att i j =
     (let xd = fsub (node_x i) (node_x j);
          yd = fsub (node_y i) (node_y j);
          r = fsqrt (fdiv (fadd (fmul xd xd) (fmul yd yd)) (double_literal 10))
      in case nint r of
           None \<Rightarrow> None
         | Some t \<Rightarrow> Some (if fless (double_of_unsigned t) r then t + 1 else t))"

definition PI :: double where
  "PI = double_literal (3141592 / 1000000)"

text \<open>
  In \<open>geo\<close> the four casts \<^verbatim>\<open>(int) i.x\<close>, \<^verbatim>\<open>(int) i.y\<close>, \<^verbatim>\<open>(int) j.x\<close>, \<^verbatim>\<open>(int) j.y\<close> come
  first and the arithmetic, which the source interleaves with them, after. In
  \<^verbatim>\<open>i.x - deg\<close> and \<^verbatim>\<open>deg + 5.0 * min / 3.0\<close> the \<^verbatim>\<open>int\<close> is converted to \<^verbatim>\<open>double\<close>.
\<close>

definition geo :: "cmath \<Rightarrow> Node \<Rightarrow> Node \<Rightarrow> 'w::len word option" where
  "geo lm i j =
     (case int_cast (node_x i) of None \<Rightarrow> None | Some deg1 \<Rightarrow>
     (case int_cast (node_y i) of None \<Rightarrow> None | Some deg2 \<Rightarrow>
     (case int_cast (node_x j) of None \<Rightarrow> None | Some deg3 \<Rightarrow>
     (case int_cast (node_y j) of None \<Rightarrow> None | Some deg4 \<Rightarrow>
       (let min1 = fsub (node_x i) (double_of_int deg1);
            lat_i = fdiv (fmul PI (fadd (double_of_int deg1)
                                        (fdiv (fmul (double_literal 5) min1)
                                              (double_literal 3))))
                         (double_literal 180);
            min2 = fsub (node_y i) (double_of_int deg2);
            lon_i = fdiv (fmul PI (fadd (double_of_int deg2)
                                        (fdiv (fmul (double_literal 5) min2)
                                              (double_literal 3))))
                         (double_literal 180);
            min3 = fsub (node_x j) (double_of_int deg3);
            lat_j = fdiv (fmul PI (fadd (double_of_int deg3)
                                        (fdiv (fmul (double_literal 5) min3)
                                              (double_literal 3))))
                         (double_literal 180);
            min4 = fsub (node_y j) (double_of_int deg4);
            lon_j = fdiv (fmul PI (fadd (double_of_int deg4)
                                        (fdiv (fmul (double_literal 5) min4)
                                              (double_literal 3))))
                         (double_literal 180);
            q1 = cos_d lm (fsub lon_i lon_j);
            q2 = cos_d lm (fsub lat_i lat_j);
            q3 = cos_d lm (fadd lat_i lat_j)
        in map_option word_of_int
             (int_cast
                (fadd (fmul (double_literal (6378388 / 1000))
                            (acos_d lm
                               (fmul (double_literal (1 / 2))
                                     (fsub (fmul (fadd (double_literal 1) q1) q2)
                                           (fmul (fsub (double_literal 1) q1) q3)))))
                      (double_literal 1))))))))"

subsection \<open>The constructor\<close>

text \<open>The chain of \<^verbatim>\<open>if(type == ...)\<close> and \<^verbatim>\<open>if(format == ...)\<close> assignments.\<close>

definition ewt_of :: "string \<Rightarrow> EWT" where
  "ewt_of type =
     (let e = EWT_NONE;
          e = (if type = ''EXPLICIT'' then EXPLICIT else e);
          e = (if type = ''EUC_2D'' then EUC_2D else e);
          e = (if type = ''CEIL_2D'' then CEIL_2D else e);
          e = (if type = ''GEO'' then GEO else e);
          e = (if type = ''ATT'' then ATT else e)
      in e)"

definition ewf_of :: "string \<Rightarrow> EWF" where
  "ewf_of format =
     (let f = EWF_NONE;
          f = (if format = ''FULL_MATRIX'' then FULL_MATRIX else f);
          f = (if format = ''UPPER_ROW'' then UPPER_ROW else f);
          f = (if format = ''UPPER_DIAG_ROW'' then UPPER_DIAG_ROW else f);
          f = (if format = ''LOWER_DIAG_ROW'' then LOWER_DIAG_ROW else f)
      in f)"

text \<open>
  The bodies of the reading loops. \<open>full_body\<close> is \<^verbatim>\<open>data >> m[i][j]\<close>; \<open>mirror_body\<close> is
  \<^verbatim>\<open>data >> current_value; m[i][j] = current_value; m[j][i] = current_value\<close>, with the
  variable \<^verbatim>\<open>current_value\<close> as third component of the state.
\<close>

definition full_body ::
  "nat \<Rightarrow> nat \<Rightarrow> istream \<times> 'w::len matrix_t \<Rightarrow> istream \<times> 'w matrix_t" where
  "full_body i j = (\<lambda>(s, m). let (s', v) = read_unsigned s (m ! i ! j) in (s', mset m i j v))"

definition mirror_body ::
  "nat \<Rightarrow> nat \<Rightarrow> istream \<times> 'w::len matrix_t \<times> 'w word \<Rightarrow> istream \<times> 'w matrix_t \<times> 'w word" where
  "mirror_body i j =
     (\<lambda>(s, m, current_value).
        let (s', v) = read_unsigned s current_value
        in (s', mset (mset m i j v) j i v, v))"

definition zero_diagonal :: "nat \<Rightarrow> 'w::len matrix_t \<Rightarrow> 'w matrix_t" where
  "zero_diagonal n m = for_loop 0 n (\<lambda>i m. mset m i i 0) m"

text \<open>
  The \<^verbatim>\<open>switch (_ewf)\<close> of the EXPLICIT branch. \<open>cv0\<close> is the indeterminate value that the
  uninitialised variable \<^verbatim>\<open>current_value\<close> holds before the first extraction.
\<close>

definition fill_explicit ::
  "EWF \<Rightarrow> nat \<Rightarrow> 'w::len word \<Rightarrow> istream \<Rightarrow> 'w matrix_t \<Rightarrow> error + 'w matrix_t" where
  "fill_explicit f n cv0 data m =
     (case f of
        FULL_MATRIX \<Rightarrow>
          Inr (zero_diagonal n
                (snd (for_loop 0 n (\<lambda>i. for_loop 0 n (full_body i)) (data, m))))
      | UPPER_ROW \<Rightarrow>
          Inr (zero_diagonal n
                (fst (snd (for_loop 0 (size_sub n 1) (\<lambda>i. for_loop (i + 1) n (mirror_body i))
                             (data, m, cv0)))))
      | UPPER_DIAG_ROW \<Rightarrow>
          Inr (zero_diagonal n
                (fst (snd (for_loop 0 n (\<lambda>i. for_loop i n (mirror_body i)) (data, m, cv0)))))
      | LOWER_DIAG_ROW \<Rightarrow>
          Inr (zero_diagonal n
                (fst (snd (for_loop 0 n (\<lambda>i. for_loop_le 0 i (mirror_body i)) (data, m, cv0)))))
      | EWF_NONE \<Rightarrow> Inl Assertion_failed)"

text \<open>
  The coordinate branch. The extraction \<^verbatim>\<open>data >> index >> x >> y\<close> into three
  uninitialised variables is the parameter \<open>rd\<close>: it takes the stream and gives the
  stream afterwards and the node that is pushed. Nothing below depends on what it reads.
\<close>

definition read_nodes ::
  "(istream \<Rightarrow> istream \<times> Node) \<Rightarrow> nat \<Rightarrow> istream \<Rightarrow> Node list" where
  "read_nodes rd n data =
     snd (for_loop 0 n (\<lambda>i (s, ns). let (s', nd) = rd s in (s', ns @ [nd])) (data, []))"

definition dist_f ::
  "cmath \<Rightarrow> EWT \<Rightarrow> (Node \<Rightarrow> Node \<Rightarrow> 'w::len word option) option" where
  "dist_f lm t =
     (case t of
        EUC_2D \<Rightarrow> Some euc_2D
      | CEIL_2D \<Rightarrow> Some ceil_2D
      | GEO \<Rightarrow> Some (geo lm)
      | ATT \<Rightarrow> Some att
      | _ \<Rightarrow> None)"

definition pair_body ::
  "(Node \<Rightarrow> Node \<Rightarrow> 'w::len word option) \<Rightarrow> Node list \<Rightarrow> nat \<Rightarrow> nat \<Rightarrow>
   'w matrix_t option \<Rightarrow> 'w matrix_t option" where
  "pair_body f ns i j mo =
     (case mo of
        None \<Rightarrow> None
      | Some m \<Rightarrow>
          (case f (ns ! i) (ns ! j) of
             None \<Rightarrow> None
           | Some current_value \<Rightarrow>
               Some (mset (mset m i j current_value) j i current_value)))"

definition fill_coords ::
  "(Node \<Rightarrow> Node \<Rightarrow> 'w::len word option) \<Rightarrow> nat \<Rightarrow> Node list \<Rightarrow> 'w matrix_t \<Rightarrow>
   'w matrix_t option" where
  "fill_coords f n ns m =
     for_loop 0 n
       (\<lambda>i mo. for_loop (i + 1) n (pair_body f ns i) (map_option (\<lambda>m. mset m i i 0) mo))
       (Some m)"

definition new_tsplib_loader ::
  "cmath \<Rightarrow> (istream \<Rightarrow> istream \<times> Node) \<Rightarrow> 'w::len word \<Rightarrow> string \<Rightarrow>
   error + 'w word tsplib_loader" where
  "new_tsplib_loader lm rd cv0 input =
     (case regex_search dim_rgx input of
        None \<Rightarrow> Inl Incorrect_DIMENSION
      | Some dim_str \<Rightarrow>
     (case stoul dim_str of
        Inl e \<Rightarrow> Inl e
      | Inr n \<Rightarrow>
     (case regex_search ewt_rgx input of
        None \<Rightarrow> Inl Incorrect_EDGE_WEIGHT_TYPE
      | Some type \<Rightarrow>
     if ewt_of type = EWT_NONE then Inl (Unsupported_EDGE_WEIGHT_TYPE type)
     else if ewt_of type = EXPLICIT then
       (case regex_search ewf_rgx input of
          None \<Rightarrow> Inl Incorrect_EDGE_WEIGHT_FORMAT
        | Some format \<Rightarrow>
       if ewf_of format = EWF_NONE then Inl (Unsupported_EDGE_WEIGHT_FORMAT format)
       else
       (case regex_search ews_rgx input of
          None \<Rightarrow> Inl Incorrect_EDGE_WEIGHT_SECTION
        | Some ds \<Rightarrow>
       (case fill_explicit (ewf_of format) n cv0 (istringstream ds) (new_matrix n) of
          Inl e \<Rightarrow> Inl e
        | Inr m \<Rightarrow>
            Inr \<lparr>dimension = n, ewt = EXPLICIT, ewf = ewf_of format, data_section = ds,
                 matrix = m, nodes = []\<rparr>)))
     else
       (case regex_search ncs_rgx input of
          None \<Rightarrow> Inl Incorrect_NODE_COORD_SECTION
        | Some ds \<Rightarrow>
       (case dist_f lm (ewt_of type) of
          None \<Rightarrow> Inl Assertion_failed
        | Some f \<Rightarrow>
       (case fill_coords f n (read_nodes rd n (istringstream ds)) (new_matrix n) of
          None \<Rightarrow> Inl Undefined_conversion
        | Some m \<Rightarrow>
            Inr \<lparr>dimension = n, ewt = ewt_of type, ewf = EWF_NONE, data_section = ds,
                 matrix = m, nodes = read_nodes rd n (istringstream ds)\<rparr>))))))"

definition get_matrix :: "'d tsplib_loader \<Rightarrow> 'd list list" where
  "get_matrix L = matrix L"

definition get_route_geometry :: "'d tsplib_loader \<Rightarrow> index_t list \<Rightarrow> string" where
  "get_route_geometry L tour = []"

subsection \<open>Printing a tour\<close>

text \<open>
  \<^verbatim>\<open>std::to_string\<close> of an integer is its decimal representation; of a \<^verbatim>\<open>double\<close> it is
  the \<^verbatim>\<open>%f\<close> format: a minus sign when the sign bit is set, integer part, a point and six
  decimals, rounded to nearest (ties to even); \<^verbatim>\<open>inf\<close> and \<^verbatim>\<open>nan\<close> for the other values.
\<close>

definition digit_char :: "nat \<Rightarrow> char" where
  "digit_char d = char_of (48 + d)"

function to_string_nat :: "nat \<Rightarrow> string" where
  "to_string_nat n =
     (if n < 10 then [digit_char n] else to_string_nat (n div 10) @ [digit_char (n mod 10)])"
  by pat_completeness auto
termination
  by (relation "measure (\<lambda>n. n)") auto

declare to_string_nat.simps [simp del]

fun to_string_double :: "double \<Rightarrow> string" where
  "to_string_double (Number s a) =
     (let n = nat (round_even (a * 1000000))
      in (if s then ''-'' else []) @ to_string_nat (n div 1000000) @ ''.'' @
         map (\<lambda>k. digit_char (n div 10 ^ k mod 10)) [5, 4, 3, 2, 1, 0])"
| "to_string_double (Infinity s) = (if s then ''-inf'' else ''inf'')"
| "to_string_double (NaN s) = (if s then ''-nan'' else ''nan'')"

declare to_string_double.simps [simp del]

text \<open>
  \<^verbatim>\<open>get_route\<close>. The two loops over the tour append to a string; \<^verbatim>\<open>pop_back\<close> removes the
  last character. \<^verbatim>\<open>_nodes[step]\<close> outside the vector has undefined behaviour: \<open>None\<close>.
\<close>

definition pop_back :: "string \<Rightarrow> string" where
  "pop_back s = butlast s"

definition get_route :: "'d tsplib_loader \<Rightarrow> index_t list \<Rightarrow> string option" where
  "get_route L tour =
     (let tour_part = (\<lambda>result0.
            let result = result0 @ ''\"tour\":['';
                result = foldl (\<lambda>result step. result @ to_string_nat (step + 1) @ '','')
                           result tour;
                result = pop_back result
            in result @ ''],'')
      in if ewt L \<noteq> EWT_NONE \<and> ewt L \<noteq> EXPLICIT then
           if list_all (\<lambda>step. step < length (nodes L)) tour then
             let route = ''\"route\":['';
                 route = foldl (\<lambda>route step. route @ ''['' @
                                  to_string_double (node_x (nodes L ! step)) @ '','' @
                                  to_string_double (node_y (nodes L ! step)) @ ''],'')
                           route tour;
                 route = pop_back route
             in Some (tour_part (route @ ''],''))
           else None
         else Some (tour_part []))"

section \<open>Properties of the loader\<close>

subsection \<open>Predicates on matrices\<close>

definition square :: "nat \<Rightarrow> 'a list list \<Rightarrow> bool" where
  "square n m = (length m = n \<and> list_all (\<lambda>r. length r = n) m)"

definition symmetric :: "nat \<Rightarrow> 'a list list \<Rightarrow> bool" where
  "symmetric n m = (\<forall>i<n. \<forall>j<n. m ! i ! j = m ! j ! i)"

text \<open>The invariant of the coordinate loop when its outer index is \<open>k\<close>.\<close>

definition coords_inv :: "nat \<Rightarrow> nat \<Rightarrow> 'w::len word list list option \<Rightarrow> bool" where
  "coords_inv n k mo =
     (case mo of
        None \<Rightarrow> True
      | Some m \<Rightarrow> square n m \<and> symmetric n m \<and> (\<forall>a<k. a < n \<longrightarrow> m ! a ! a = 0))"

subsection \<open>Example inputs\<close>

definition upper_row_instance :: string where
  "upper_row_instance =
     ''NAME: upper\<newline>TYPE: TSP\<newline>DIMENSION: 3\<newline>'' @
     ''EDGE_WEIGHT_TYPE: EXPLICIT\<newline>EDGE_WEIGHT_FORMAT: UPPER_ROW\<newline>'' @
     ''EDGE_WEIGHT_SECTION\<newline>10 15 20\<newline>EOF\<newline>''"

definition upper_row_loader :: "32 word tsplib_loader" where
  "upper_row_loader =
     \<lparr>dimension = 3, ewt = EXPLICIT, ewf = UPPER_ROW, data_section = ''10 15 20\<newline>'',
      matrix = [[0, 10, 15], [10, 0, 20], [15, 20, 0]], nodes = []\<rparr>"

definition full_matrix_asymmetric :: string where
  "full_matrix_asymmetric =
     ''DIMENSION: 2\<newline>EDGE_WEIGHT_TYPE: EXPLICIT\<newline>EDGE_WEIGHT_FORMAT: FULL_MATRIX\<newline>'' @
     ''EDGE_WEIGHT_SECTION\<newline>0 1\<newline>2 0\<newline>EOF\<newline>''"

definition full_matrix_asymmetric_loader :: "32 word tsplib_loader" where
  "full_matrix_asymmetric_loader =
     \<lparr>dimension = 2, ewt = EXPLICIT, ewf = FULL_MATRIX, data_section = ''0 1\<newline>2 0\<newline>'',
      matrix = [[0, 1], [2, 0]], nodes = []\<rparr>"

definition full_matrix_diagonal :: string where
  "full_matrix_diagonal =
     ''DIMENSION: 2\<newline>EDGE_WEIGHT_TYPE: EXPLICIT\<newline>EDGE_WEIGHT_FORMAT: FULL_MATRIX\<newline>'' @
     ''EDGE_WEIGHT_SECTION\<newline>7 1\<newline>1 9\<newline>EOF\<newline>''"

definition full_matrix_diagonal_loader :: "32 word tsplib_loader" where
  "full_matrix_diagonal_loader =
     \<lparr>dimension = 2, ewt = EXPLICIT, ewf = FULL_MATRIX, data_section = ''7 1\<newline>1 9\<newline>'',
      matrix = [[0, 1], [1, 0]], nodes = []\<rparr>"

definition full_matrix_short :: string where
  "full_matrix_short =
     ''DIMENSION: 2\<newline>EDGE_WEIGHT_TYPE: EXPLICIT\<newline>EDGE_WEIGHT_FORMAT: FULL_MATRIX\<newline>'' @
     ''EDGE_WEIGHT_SECTION\<newline>0 1\<newline>2\<newline>EOF\<newline>''"

definition full_matrix_short_loader :: "32 word tsplib_loader" where
  "full_matrix_short_loader =
     \<lparr>dimension = 2, ewt = EXPLICIT, ewf = FULL_MATRIX, data_section = ''0 1\<newline>2\<newline>'',
      matrix = [[0, 1], [2, 0]], nodes = []\<rparr>"

definition full_matrix_letters :: string where
  "full_matrix_letters =
     ''DIMENSION: 2\<newline>EDGE_WEIGHT_TYPE: EXPLICIT\<newline>EDGE_WEIGHT_FORMAT: FULL_MATRIX\<newline>'' @
     ''EDGE_WEIGHT_SECTION\<newline>0 1\<newline>x 0\<newline>EOF\<newline>''"

definition full_matrix_letters_loader :: "32 word tsplib_loader" where
  "full_matrix_letters_loader =
     \<lparr>dimension = 2, ewt = EXPLICIT, ewf = FULL_MATRIX, data_section = ''0 1\<newline>'',
      matrix = [[0, 1], [0, 0]], nodes = []\<rparr>"

definition dimension_zero :: string where
  "dimension_zero =
     ''DIMENSION: 0\<newline>EDGE_WEIGHT_TYPE: EXPLICIT\<newline>EDGE_WEIGHT_FORMAT: FULL_MATRIX\<newline>'' @
     ''EDGE_WEIGHT_SECTION\<newline>0\<newline>EOF\<newline>''"

definition dimension_zero_loader :: "32 word tsplib_loader" where
  "dimension_zero_loader =
     \<lparr>dimension = 0, ewt = EXPLICIT, ewf = FULL_MATRIX, data_section = ''0\<newline>'',
      matrix = [], nodes = []\<rparr>"

text \<open>A node extraction for the examples, which have no node section.\<close>

definition no_node :: "istream \<Rightarrow> istream \<times> Node" where
  "no_node s = (s, \<lparr>node_index = 0, node_x = Number False 0, node_y = Number False 0\<rparr>)"

text \<open>
  A node extraction for instances whose node lines hold unsigned decimal integers below
  \<open>2 ^ 32\<close> only: on such text the extraction of a \<^verbatim>\<open>double\<close> reads the same digits as
  the extraction of an unsigned integer, and gives that integer as a \<^verbatim>\<open>double\<close>.
\<close>

definition read_integer_node :: "istream \<Rightarrow> istream \<times> Node" where
  "read_integer_node s =
     (let (s1, index) = read_unsigned s (0 :: 32 word);
          (s2, x) = read_unsigned s1 (0 :: 32 word);
          (s3, y) = read_unsigned s2 (0 :: 32 word)
      in (s3, \<lparr>node_index = unat index, node_x = double_of_unsigned x,
               node_y = double_of_unsigned y\<rparr>))"

text \<open>
  A \<^verbatim>\<open><cmath>\<close> for the examples: one whose \<^verbatim>\<open>cos\<close> and \<^verbatim>\<open>acos\<close> are correctly rounded
  (\<^verbatim>\<open>acos\<close> outside \<open>[-1, 1]\<close> is a NaN).
\<close>

definition exact_cmath :: cmath where
  "exact_cmath =
     \<lparr>cos_d = (\<lambda>x. case x of
                      Number s a \<Rightarrow> round_result False (cos (with_sign s a))
                    | _ \<Rightarrow> NaN True),
      acos_d = (\<lambda>x. case x of
                       Number s a \<Rightarrow>
                         if a \<le> 1 then round_result False (arccos (with_sign s a))
                         else NaN True
                     | _ \<Rightarrow> NaN True)\<rparr>"

definition att_instance :: string where
  "att_instance =
     ''NAME: att2\<newline>TYPE: TSP\<newline>DIMENSION: 2\<newline>EDGE_WEIGHT_TYPE: ATT\<newline>'' @
     ''NODE_COORD_SECTION\<newline>1 0 0\<newline>2 1 0\<newline>EOF\<newline>''"

definition att_loader :: "32 word tsplib_loader" where
  "att_loader =
     \<lparr>dimension = 2, ewt = ATT, ewf = EWF_NONE, data_section = ''1 0 0\<newline>2 1 0\<newline>'',
      matrix = [[0, 1], [1, 0]],
      nodes = [\<lparr>node_index = 1, node_x = Number False 0, node_y = Number False 0\<rparr>,
               \<lparr>node_index = 2, node_x = Number False 1, node_y = Number False 0\<rparr>]\<rparr>"

definition origin :: Node where
  "origin = \<lparr>node_index = 1, node_x = Number False 0, node_y = Number False 0\<rparr>"

definition point_3_4 :: Node where
  "point_3_4 = \<lparr>node_index = 2, node_x = Number False 3, node_y = Number False 4\<rparr>"

definition point_near_half :: Node where
  "point_near_half =
     \<lparr>node_index = 2, node_x = Number False (1 / 2 - 1 / 2 ^ 54), node_y = Number False 0\<rparr>"


subsection \<open>The values that are rounded to an integer\<close>

text \<open>
  The \<^verbatim>\<open>double\<close> that \<open>euc_2D\<close> passes to \<open>nint\<close> (\<^verbatim>\<open>std::sqrt(xd*xd + yd*yd)\<close>), and the
  one that \<open>att\<close> passes to it (\<^verbatim>\<open>r\<close>).
\<close>

definition euc_root :: "Node \<Rightarrow> Node \<Rightarrow> double" where
  "euc_root i j =
     (let xd = fsub (node_x i) (node_x j);
          yd = fsub (node_y i) (node_y j)
      in fsqrt (fadd (fmul xd xd) (fmul yd yd)))"

definition att_root :: "Node \<Rightarrow> Node \<Rightarrow> double" where
  "att_root i j =
     (let xd = fsub (node_x i) (node_x j);
          yd = fsub (node_y i) (node_y j)
      in fsqrt (fdiv (fadd (fmul xd xd) (fmul yd yd)) (double_literal 10)))"

subsection \<open>Ranges of values\<close>


subsection \<open>The spec's wording of two results\<close>






text \<open>The elements of a JSON array: the items with a comma between neighbours.\<close>

fun comma_separated :: "string list \<Rightarrow> string" where
  "comma_separated [] = []"
| "comma_separated [x] = x"
| "comma_separated (x # y # ys) = x @ '','' @ comma_separated (y # ys)"

subsection \<open>A data section as a list of numbers\<close>

text \<open>
  A data section written as tokens: each a non-empty string of digits, whose value fits
  the distance type (\<open>limit\<close> is \<open>2 ^ w\<close>), followed by non-empty white space.
  \<open>upper_pairs n\<close> lists the index pairs \<open>(i, j)\<close> with \<open>0 \<le> i < j < n\<close> in row order.
\<close>

definition number_token :: "nat \<Rightarrow> string \<times> string \<Rightarrow> bool" where
  "number_token limit t =
     (fst t \<noteq> [] \<and> list_all isdigit (fst t) \<and> nat_of_digits (fst t) < limit \<and>
      snd t \<noteq> [] \<and> list_all isspace (snd t))"

definition numbers_text :: "(string \<times> string) list \<Rightarrow> string" where
  "numbers_text toks = concat (map (\<lambda>t. fst t @ snd t) toks)"

definition token_value :: "string \<times> string \<Rightarrow> 'w::len word" where
  "token_value t = of_nat (nat_of_digits (fst t))"

definition upper_pairs :: "nat \<Rightarrow> (nat \<times> nat) list" where
  "upper_pairs n = concat (map (\<lambda>i. map (Pair i) [Suc i..<n]) [0..<n - 1])"

definition upper_row_tokens :: "(string \<times> string) list" where
  "upper_row_tokens = [(''10'', '' ''), (''15'', '' ''), (''20'', ''\<newline>'')]"

text \<open>The two assignments \<^verbatim>\<open>m[i][j] = v; m[j][i] = v\<close> for the pair \<open>p = (i, j)\<close>.\<close>

definition mirror_write :: "'a list list \<Rightarrow> nat \<times> nat \<Rightarrow> 'a \<Rightarrow> 'a list list" where
  "mirror_write m p v = mset (mset m (fst p) (snd p) v) (snd p) (fst p) v"

section \<open>Proofs\<close>

subsection \<open>Loop rules\<close>

lemma for_loop_rule:
  assumes "P i st"
    and "\<And>k s. i \<le> k \<Longrightarrow> k < n \<Longrightarrow> P k s \<Longrightarrow> P (Suc k) (body k s)"
  shows "P (max i n) (for_loop i n body st)"
  using assms
proof (induction i n body st rule: for_loop.induct)
  case (1 i n body st)
  show ?case
  proof (cases "i < n")
    case True
    have "P (Suc i) (body i st)"
      using "1.prems" True by simp
    moreover have "\<And>k s. Suc i \<le> k \<Longrightarrow> k < n \<Longrightarrow> P k s \<Longrightarrow> P (Suc k) (body k s)"
      using "1.prems"(2) by simp
    ultimately have "P (max (Suc i) n) (for_loop (Suc i) n body (body i st))"
      using "1.IH" [OF True] by blast
    then show ?thesis
      using True by (simp add: for_loop.simps [of i] max_def)
  next
    case False
    then show ?thesis
      using "1.prems"(1) by (simp add: for_loop.simps [of i] max_def)
  qed
qed

lemma for_loop_inv:
  assumes "P st"
    and "\<And>k s. i \<le> k \<Longrightarrow> k < n \<Longrightarrow> P s \<Longrightarrow> P (body k s)"
  shows "P (for_loop i n body st)"
  using for_loop_rule [where P = "\<lambda>_. P", OF assms] by simp

lemma for_loop_le_eq: "for_loop_le i n body st = for_loop i (Suc n) body st"
proof (induction i n body st rule: for_loop_le.induct)
  case (1 i n body st)
  show ?case
  proof (cases "i \<le> n")
    case True
    then show ?thesis
      using "1.IH" by (simp add: for_loop_le.simps [of i] for_loop.simps [of i])
  next
    case False
    then show ?thesis
      by (simp add: for_loop_le.simps [of i] for_loop.simps [of i])
  qed
qed

lemma for_loop_le_fun: "for_loop_le i n body = for_loop i (Suc n) body"
  by (rule ext) (rule for_loop_le_eq)

subsection \<open>Square matrices\<close>

lemma square_new_matrix: "square n (new_matrix n)"
  by (simp add: square_def new_matrix_def list_all_iff)

lemma mset_row:
  "i < length m \<Longrightarrow> mset m i j v ! a = (if a = i then (m ! i)[j := v] else m ! a)"
  by (simp add: mset_def nth_list_update)

lemma mset_outside: "\<not> i < length m \<Longrightarrow> mset m i j v = m"
  by (simp add: mset_def list_update_beyond)

lemma length_mset: "length (mset m i j v) = length m"
  by (simp add: mset_def)

lemma square_mset:
  assumes "square n m"
  shows "square n (mset m i j v)"
proof (cases "i < length m")
  case True
  then show ?thesis
    using assms by (simp add: square_def list_all_length length_mset mset_row)
next
  case False
  then show ?thesis
    using assms by (simp add: mset_outside)
qed

lemma mset_nth:
  assumes "square n m" "a < n" "b < n"
  shows "mset m i j v ! a ! b = (if a = i \<and> b = j then v else m ! a ! b)"
proof (cases "i < length m")
  case True
  have "length (m ! i) = n"
    using assms(1) True by (simp add: square_def list_all_length)
  then show ?thesis
    using True assms by (simp add: mset_row nth_list_update)
next
  case False
  then show ?thesis
    using assms by (auto simp: mset_outside square_def)
qed

lemma symmetric_new_matrix: "symmetric n (new_matrix n)"
  by (simp add: symmetric_def new_matrix_def)

lemma if_twice_swap:
  "(if P then v else if Q then v else w) = (if Q then v else if P then v else w)"
  by simp

lemma symmetric_mset2:
  assumes "square n m" "symmetric n m"
  shows "symmetric n (mset (mset m i j v) j i v)"
  unfolding symmetric_def
proof (intro allI impI)
  fix a b
  assume ab: "a < n" "b < n"
  have sq: "square n (mset m i j v)"
    using assms(1) by (rule square_mset)
  have eq: "m ! b ! a = m ! a ! b"
    using assms(2) ab by (simp add: symmetric_def)
  have c: "(b = j \<and> a = i) = (a = i \<and> b = j)" "(b = i \<and> a = j) = (a = j \<and> b = i)"
    by blast+
  have l: "mset (mset m i j v) j i v ! a ! b =
           (if a = j \<and> b = i then v else if a = i \<and> b = j then v else m ! a ! b)"
    by (simp only: mset_nth [OF sq ab] mset_nth [OF assms(1) ab])
  have r: "mset (mset m i j v) j i v ! b ! a =
           (if a = i \<and> b = j then v else if a = j \<and> b = i then v else m ! a ! b)"
    by (simp only: mset_nth [OF sq ab(2,1)] mset_nth [OF assms(1) ab(2,1)] eq c)
  show "mset (mset m i j v) j i v ! a ! b = mset (mset m i j v) j i v ! b ! a"
    by (simp only: l r if_twice_swap [of "a = j \<and> b = i"])
qed

lemma symmetric_mset_diag:
  assumes "square n m" "symmetric n m"
  shows "symmetric n (mset m i i v)"
  unfolding symmetric_def
proof (intro allI impI)
  fix a b
  assume ab: "a < n" "b < n"
  have eq: "m ! b ! a = m ! a ! b"
    using assms(2) ab by (simp add: symmetric_def)
  have c: "(b = i \<and> a = i) = (a = i \<and> b = i)"
    by blast
  have l: "mset m i i v ! a ! b = (if a = i \<and> b = i then v else m ! a ! b)"
    by (simp only: mset_nth [OF assms(1) ab])
  have r: "mset m i i v ! b ! a = (if a = i \<and> b = i then v else m ! a ! b)"
    by (simp only: mset_nth [OF assms(1) ab(2,1)] eq c)
  show "mset m i i v ! a ! b = mset m i i v ! b ! a"
    by (simp only: l r)
qed

subsection \<open>The reading loops keep the matrix square and symmetric\<close>

lemma square_full_body:
  "square n (snd st) \<Longrightarrow> square n (snd (full_body i j st))"
  by (cases st) (simp add: full_body_def square_mset split: prod.splits)

lemma square_symmetric_mirror_body:
  assumes "square n (fst (snd st)) \<and> symmetric n (fst (snd st))"
  shows "square n (fst (snd (mirror_body i j st))) \<and>
         symmetric n (fst (snd (mirror_body i j st)))"
  using assms
  by (cases st) (simp add: mirror_body_def square_mset symmetric_mset2 split: prod.splits)

lemma square_zero_diagonal: "square n m \<Longrightarrow> square n (zero_diagonal k m)"
  unfolding zero_diagonal_def
  by (rule for_loop_inv) (simp_all add: square_mset)

lemma symmetric_zero_diagonal:
  assumes "square n m" "symmetric n m"
  shows "symmetric n (zero_diagonal k m)"
proof -
  have "square n (zero_diagonal k m) \<and> symmetric n (zero_diagonal k m)"
    unfolding zero_diagonal_def
    by (rule for_loop_inv) (simp_all add: assms square_mset symmetric_mset_diag)
  then show ?thesis ..
qed

lemma diagonal_zero_diagonal:
  fixes m :: "'w::len word list list"
  assumes "square n m" "i < n"
  shows "zero_diagonal n m ! i ! i = 0"
proof -
  let ?P = "\<lambda>k (m :: 'w word list list). square n m \<and> (\<forall>a<k. m ! a ! a = 0)"
  have "?P (max 0 n) (for_loop 0 n (\<lambda>i m. mset m i i 0) m)"
  proof (rule for_loop_rule)
    show "?P 0 m"
      using assms(1) by simp
  next
    fix k s
    assume k: "k < n" and s: "?P k s"
    show "?P (Suc k) (mset s k k 0)"
    proof (intro conjI allI impI)
      show "square n (mset s k k 0)"
        using s by (simp add: square_mset)
    next
      fix a
      assume "a < Suc k"
      then have "a < n"
        using k by simp
      then show "mset s k k 0 ! a ! a = 0"
        using s \<open>a < Suc k\<close> by (auto simp: mset_nth [of n] less_Suc_eq)
    qed
  qed
  then show ?thesis
    using assms(2) by (simp add: zero_diagonal_def)
qed

lemma nested_loop_inv:
  assumes "P st" and "\<And>i j s. P s \<Longrightarrow> P (body i j s)"
  shows "P (for_loop a b (\<lambda>i. for_loop (lo i) (hi i) (body i)) st)"
  by (rule for_loop_inv, rule assms(1), rule for_loop_inv, assumption, rule assms(2))

lemma fill_explicit_square:
  assumes "fill_explicit f n cv0 data m = Inr m'" "square n m"
  shows "square n m'"
proof -
  have full: "square n (snd (for_loop a b (\<lambda>i. for_loop (lo i) (hi i) (full_body i)) (data, m)))"
    for a b lo hi
    by (rule nested_loop_inv [where P = "\<lambda>st. square n (snd st)"])
       (simp_all add: assms(2) square_full_body)
  have mirror: "square n (fst (snd (for_loop a b (\<lambda>i. for_loop (lo i) (hi i) (mirror_body i))
                                      (data, m, cv0))))"
    for a b lo hi
    by (rule nested_loop_inv [where P = "\<lambda>st. square n (fst (snd st))"])
       (auto simp: assms(2) mirror_body_def square_mset split: prod.splits)
  show ?thesis
    using assms(1) full mirror
    by (cases f) (auto simp: fill_explicit_def for_loop_le_fun square_zero_diagonal)
qed

lemma fill_explicit_diagonal:
  assumes "fill_explicit f n cv0 data m = Inr m'" "square n m" "i < n"
  shows "m' ! i ! i = 0"
proof -
  have full: "square n (snd (for_loop a b (\<lambda>i. for_loop (lo i) (hi i) (full_body i)) (data, m)))"
    for a b lo hi
    by (rule nested_loop_inv [where P = "\<lambda>st. square n (snd st)"])
       (simp_all add: assms(2) square_full_body)
  have mirror: "square n (fst (snd (for_loop a b (\<lambda>i. for_loop (lo i) (hi i) (mirror_body i))
                                      (data, m, cv0))))"
    for a b lo hi
    by (rule nested_loop_inv [where P = "\<lambda>st. square n (fst (snd st))"])
       (auto simp: assms(2) mirror_body_def square_mset split: prod.splits)
  show ?thesis
    using assms(1,3) full mirror
    by (cases f) (auto simp: fill_explicit_def for_loop_le_fun diagonal_zero_diagonal)
qed

lemma fill_explicit_symmetric:
  assumes "fill_explicit f n cv0 data m = Inr m'" "square n m" "symmetric n m"
    and "f \<noteq> FULL_MATRIX"
  shows "symmetric n m'"
proof -
  have mirror: "square n (fst (snd (for_loop a b (\<lambda>i. for_loop (lo i) (hi i) (mirror_body i))
                                      (data, m, cv0)))) \<and>
                symmetric n (fst (snd (for_loop a b (\<lambda>i. for_loop (lo i) (hi i) (mirror_body i))
                                      (data, m, cv0))))"
    for a b lo hi
    by (rule nested_loop_inv
          [where P = "\<lambda>st. square n (fst (snd st)) \<and> symmetric n (fst (snd st))"])
       (simp_all add: assms(2,3) square_symmetric_mirror_body)
  show ?thesis
    using assms(1,4) mirror
    by (cases f) (auto simp: fill_explicit_def for_loop_le_fun symmetric_zero_diagonal)
qed

subsection \<open>The coordinate loop\<close>

lemma mset2_diagonal:
  assumes "square n m" "a < n" "i \<noteq> j"
  shows "mset (mset m i j v) j i v ! a ! a = m ! a ! a"
  using assms by (auto simp: mset_nth [of n] square_mset)

lemma coords_inv_pair_body:
  assumes "coords_inv n k mo" "i \<noteq> j"
  shows "coords_inv n k (pair_body f ns i j mo)"
  using assms
  by (auto simp: coords_inv_def pair_body_def square_mset symmetric_mset2 mset2_diagonal
           split: option.splits)

lemma coords_inv_zero:
  assumes "coords_inv n k mo" "k < n"
  shows "coords_inv n (Suc k) (map_option (\<lambda>m. mset m k k 0) mo)"
  using assms
  by (auto simp: coords_inv_def square_mset symmetric_mset_diag mset_nth [of n] less_Suc_eq
           split: option.splits)

lemma fill_coords_inv:
  fixes m :: "'w::len word list list"
  assumes "square n m" "symmetric n m"
  shows "coords_inv n n (fill_coords f n ns m)"
proof -
  have "coords_inv n (max 0 n)
          (for_loop 0 n
             (\<lambda>i mo. for_loop (i + 1) n (pair_body f ns i) (map_option (\<lambda>m. mset m i i 0) mo))
             (Some m))"
  proof (rule for_loop_rule [where P = "coords_inv n"])
    show "coords_inv n 0 (Some m)"
      using assms by (simp add: coords_inv_def)
  next
    fix k and s :: "'w word list list option"
    assume k: "k < n" and s: "coords_inv n k s"
    show "coords_inv n (Suc k)
            (for_loop (k + 1) n (pair_body f ns k) (map_option (\<lambda>m. mset m k k 0) s))"
    proof (rule for_loop_inv)
      show "coords_inv n (Suc k) (map_option (\<lambda>m. mset m k k 0) s)"
        using s k by (rule coords_inv_zero)
    next
      fix j and t :: "'w word list list option"
      assume "k + 1 \<le> j" and "coords_inv n (Suc k) t"
      then show "coords_inv n (Suc k) (pair_body f ns k j t)"
        by (intro coords_inv_pair_body) simp_all
    qed
  qed
  then show ?thesis
    by (simp add: fill_coords_def)
qed

lemma length_read_nodes: "length (read_nodes rd n data) = n"
proof -
  have "length (snd (for_loop 0 n (\<lambda>i (s, ns). let (s', nd) = rd s in (s', ns @ [nd]))
                       (data, []))) = max 0 n"
    by (rule for_loop_rule [where P = "\<lambda>k st. length (snd st) = k"])
       (auto split: prod.splits)
  then show ?thesis
    by (simp add: read_nodes_def)
qed

subsection \<open>What a constructed loader looks like\<close>

lemma new_tsplib_loader_Inr:
  assumes "new_tsplib_loader lm rd cv0 input = Inr L"
  shows "(ewt L = EXPLICIT \<and> ewf L \<noteq> EWF_NONE \<and> nodes L = [] \<and>
          fill_explicit (ewf L) (dimension L) cv0 (istringstream (data_section L))
            (new_matrix (dimension L)) = Inr (matrix L)) \<or>
         (ewt L \<noteq> EXPLICIT \<and> ewt L \<noteq> EWT_NONE \<and> ewf L = EWF_NONE \<and>
          nodes L = read_nodes rd (dimension L) (istringstream (data_section L)) \<and>
          (\<exists>f. dist_f lm (ewt L) = Some f \<and>
             fill_coords f (dimension L) (nodes L) (new_matrix (dimension L)) = Some (matrix L)))"
  using assms unfolding new_tsplib_loader_def
  by (auto split: option.splits sum.splits if_splits)

lemma loader_square:
  assumes "new_tsplib_loader lm rd cv0 input = Inr L"
  shows "square (dimension L) (matrix L)"
  using new_tsplib_loader_Inr [OF assms]
proof (elim disjE exE conjE)
  assume "fill_explicit (ewf L) (dimension L) cv0 (istringstream (data_section L))
            (new_matrix (dimension L)) = Inr (matrix L)"
  then show ?thesis
    by (rule fill_explicit_square) (rule square_new_matrix)
next
  fix f
  assume "fill_coords f (dimension L) (nodes L) (new_matrix (dimension L)) = Some (matrix L)"
  then show ?thesis
    using fill_coords_inv [OF square_new_matrix symmetric_new_matrix, of "dimension L" f "nodes L"]
    by (simp add: coords_inv_def)
qed

lemma loader_nodes:
  assumes "new_tsplib_loader lm rd cv0 input = Inr L"
  shows "ewt L \<noteq> EWT_NONE" and "ewt L \<noteq> EXPLICIT \<Longrightarrow> length (nodes L) = dimension L"
  using new_tsplib_loader_Inr [OF assms] by (auto simp: length_read_nodes)

subsection \<open>Evaluating the constructor on the examples\<close>

lemma new_tsplib_loader_explicit:
  assumes "regex_search dim_rgx input = Some dim_str" "stoul dim_str = Inr n"
    and "regex_search ewt_rgx input = Some type" "ewt_of type = EXPLICIT"
    and "regex_search ewf_rgx input = Some format" "ewf_of format = f" "f \<noteq> EWF_NONE"
    and "regex_search ews_rgx input = Some ds"
    and "fill_explicit f n cv0 (istringstream ds) (new_matrix n) = Inr m"
  shows "new_tsplib_loader lm rd cv0 input =
         Inr \<lparr>dimension = n, ewt = EXPLICIT, ewf = f, data_section = ds, matrix = m, nodes = []\<rparr>"
  using assms by (simp add: new_tsplib_loader_def)

lemma upper_row_fill:
  assumes "20 < (2::nat) ^ LENGTH('w::len)"
  shows "fill_explicit UPPER_ROW 3 cv0 (istringstream (''10 15 20\<newline>'')) (new_matrix 3) =
         Inr [[0, 10, 15], [10, 0, 20], [15, 20, 0 :: 'w word]]"
proof -
  have r1: "read_unsigned \<lparr>buf = ''10 15 20\<newline>'', eofbit = False, failbit = False\<rparr> v =
            (\<lparr>buf = '' 15 20\<newline>'', eofbit = False, failbit = False\<rparr>, 10 :: 'w word)" for v
    using assms
    by (simp add: read_unsigned_def good_def isspace_def isdigit_def space_chars_def
          digit_chars_def nat_of_digits_def digit_val_def)
  have r2: "read_unsigned \<lparr>buf = '' 15 20\<newline>'', eofbit = False, failbit = False\<rparr> v =
            (\<lparr>buf = '' 20\<newline>'', eofbit = False, failbit = False\<rparr>, 15 :: 'w word)" for v
    using assms
    by (simp add: read_unsigned_def good_def isspace_def isdigit_def space_chars_def
          digit_chars_def nat_of_digits_def digit_val_def)
  have r3: "read_unsigned \<lparr>buf = '' 20\<newline>'', eofbit = False, failbit = False\<rparr> v =
            (\<lparr>buf = ''\<newline>'', eofbit = False, failbit = False\<rparr>, 20 :: 'w word)" for v
    using assms
    by (simp add: read_unsigned_def good_def isspace_def isdigit_def space_chars_def
          digit_chars_def nat_of_digits_def digit_val_def)
  have loops: "for_loop 0 (size_sub 3 (Suc 0)) (\<lambda>i. for_loop (Suc i) 3 (body i)) st =
               body (Suc 0) (Suc (Suc 0)) (body 0 (Suc (Suc 0)) (body 0 (Suc 0) st))" for body :: "nat \<Rightarrow> nat \<Rightarrow> 'a \<Rightarrow> 'a" and st
    by (simp add: size_sub_def for_loop.simps [of _ "2 :: nat"] for_loop.simps [of _ "3 :: nat"])
  have diag: "for_loop 0 3 body2 st2 = body2 (Suc (Suc 0)) (body2 (Suc 0) (body2 0 st2))"
    for body2 :: "nat \<Rightarrow> 'b \<Rightarrow> 'b" and st2
    by (simp add: for_loop.simps [of _ "3 :: nat"])
  have m0: "(new_matrix 3 :: 'w word list list) = [[0, 0, 0], [0, 0, 0], [0, 0, 0]]"
    by (simp add: new_matrix_def numeral_3_eq_3)
  show ?thesis
    by (simp add: fill_explicit_def zero_diagonal_def loops diag m0 istringstream_def
          mirror_body_def r1 r2 r3 mset_def)
qed

lemma upper_row_header:
  "regex_search dim_rgx upper_row_instance = Some ''3''"
  "regex_search ewt_rgx upper_row_instance = Some ''EXPLICIT''"
  "regex_search ewf_rgx upper_row_instance = Some ''UPPER_ROW''"
  "regex_search ews_rgx upper_row_instance = Some ''10 15 20\<newline>''"
  by code_simp+

lemma explicit_words:
  "ewt_of ''EXPLICIT'' = EXPLICIT"
  "ewf_of ''UPPER_ROW'' = UPPER_ROW"
  "ewf_of ''FULL_MATRIX'' = FULL_MATRIX"
  by code_simp+

lemma stoul_small: "stoul ''0'' = Inr 0" "stoul ''2'' = Inr 2" "stoul ''3'' = Inr 3"
  by (simp_all add: stoul_def nat_of_digits_def digit_val_def)

lemmas for_loop_numeral = for_loop.simps [of _ "numeral n"] for n

lemma for_loop_zero: "for_loop i 0 body st = st"
  by (simp add: for_loop.simps [of i])

lemma new_matrix_small:
  "new_matrix 0 = []"
  "new_matrix 2 = [[0, 0], [0, 0]]"
  "new_matrix 3 = [[0, 0, 0], [0, 0, 0], [0, 0, 0]]"
  by (simp_all add: new_matrix_def numeral_2_eq_2 numeral_3_eq_3)

lemmas eval_stream =
  read_unsigned_def good_def isspace_def isdigit_def space_chars_def digit_chars_def
  nat_of_digits_def digit_val_def istringstream_def

lemma upper_row_load:
  assumes "20 < (2::nat) ^ LENGTH('w::len)"
  shows "new_tsplib_loader lm rd (cv0 :: 'w word) upper_row_instance =
         Inr \<lparr>dimension = 3, ewt = EXPLICIT, ewf = UPPER_ROW,
              data_section = ''10 15 20\<newline>'',
              matrix = [[0, 10, 15], [10, 0, 20], [15, 20, 0]], nodes = []\<rparr>"
  by (rule new_tsplib_loader_explicit
        [OF upper_row_header(1) stoul_small(3) upper_row_header(2) explicit_words(1)
            upper_row_header(3) explicit_words(2) _ upper_row_header(4)
            upper_row_fill [OF assms]])
     simp

lemma upper_row_load_32:
  "new_tsplib_loader lm rd cv0 upper_row_instance = Inr upper_row_loader"
  unfolding upper_row_loader_def by (rule upper_row_load) simp

lemma full_matrix_asymmetric_header:
  "regex_search dim_rgx full_matrix_asymmetric = Some ''2''"
  "regex_search ewt_rgx full_matrix_asymmetric = Some ''EXPLICIT''"
  "regex_search ewf_rgx full_matrix_asymmetric = Some ''FULL_MATRIX''"
  "regex_search ews_rgx full_matrix_asymmetric = Some ''0 1\<newline>2 0\<newline>''"
  by code_simp+

lemma full_matrix_asymmetric_fill:
  "fill_explicit FULL_MATRIX 2 cv0 (istringstream ''0 1\<newline>2 0\<newline>'') (new_matrix 2) =
   Inr ([[0, 1], [2, 0]] :: 32 word list list)"
  by (simp add: fill_explicit_def zero_diagonal_def for_loop_numeral for_loop_zero full_body_def
        eval_stream new_matrix_small mset_def)

lemma full_matrix_asymmetric_load:
  "new_tsplib_loader lm rd cv0 full_matrix_asymmetric = Inr full_matrix_asymmetric_loader"
  unfolding full_matrix_asymmetric_loader_def
  by (rule new_tsplib_loader_explicit
        [OF full_matrix_asymmetric_header(1) stoul_small(2) full_matrix_asymmetric_header(2) explicit_words(1)
            full_matrix_asymmetric_header(3) explicit_words(3) _ full_matrix_asymmetric_header(4) full_matrix_asymmetric_fill])
     simp

lemma full_matrix_diagonal_header:
  "regex_search dim_rgx full_matrix_diagonal = Some ''2''"
  "regex_search ewt_rgx full_matrix_diagonal = Some ''EXPLICIT''"
  "regex_search ewf_rgx full_matrix_diagonal = Some ''FULL_MATRIX''"
  "regex_search ews_rgx full_matrix_diagonal = Some ''7 1\<newline>1 9\<newline>''"
  by code_simp+

lemma full_matrix_diagonal_fill:
  "fill_explicit FULL_MATRIX 2 cv0 (istringstream ''7 1\<newline>1 9\<newline>'') (new_matrix 2) =
   Inr ([[0, 1], [1, 0]] :: 32 word list list)"
  by (simp add: fill_explicit_def zero_diagonal_def for_loop_numeral for_loop_zero full_body_def
        eval_stream new_matrix_small mset_def)

lemma full_matrix_diagonal_load:
  "new_tsplib_loader lm rd cv0 full_matrix_diagonal = Inr full_matrix_diagonal_loader"
  unfolding full_matrix_diagonal_loader_def
  by (rule new_tsplib_loader_explicit
        [OF full_matrix_diagonal_header(1) stoul_small(2) full_matrix_diagonal_header(2) explicit_words(1)
            full_matrix_diagonal_header(3) explicit_words(3) _ full_matrix_diagonal_header(4) full_matrix_diagonal_fill])
     simp

lemma full_matrix_short_header:
  "regex_search dim_rgx full_matrix_short = Some ''2''"
  "regex_search ewt_rgx full_matrix_short = Some ''EXPLICIT''"
  "regex_search ewf_rgx full_matrix_short = Some ''FULL_MATRIX''"
  "regex_search ews_rgx full_matrix_short = Some ''0 1\<newline>2\<newline>''"
  by code_simp+

lemma full_matrix_short_fill:
  "fill_explicit FULL_MATRIX 2 cv0 (istringstream ''0 1\<newline>2\<newline>'') (new_matrix 2) =
   Inr ([[0, 1], [2, 0]] :: 32 word list list)"
  by (simp add: fill_explicit_def zero_diagonal_def for_loop_numeral for_loop_zero full_body_def
        eval_stream new_matrix_small mset_def)

lemma full_matrix_short_load:
  "new_tsplib_loader lm rd cv0 full_matrix_short = Inr full_matrix_short_loader"
  unfolding full_matrix_short_loader_def
  by (rule new_tsplib_loader_explicit
        [OF full_matrix_short_header(1) stoul_small(2) full_matrix_short_header(2) explicit_words(1)
            full_matrix_short_header(3) explicit_words(3) _ full_matrix_short_header(4) full_matrix_short_fill])
     simp

lemma full_matrix_letters_header:
  "regex_search dim_rgx full_matrix_letters = Some ''2''"
  "regex_search ewt_rgx full_matrix_letters = Some ''EXPLICIT''"
  "regex_search ewf_rgx full_matrix_letters = Some ''FULL_MATRIX''"
  "regex_search ews_rgx full_matrix_letters = Some ''0 1\<newline>''"
  by code_simp+

lemma full_matrix_letters_fill:
  "fill_explicit FULL_MATRIX 2 cv0 (istringstream ''0 1\<newline>'') (new_matrix 2) =
   Inr ([[0, 1], [0, 0]] :: 32 word list list)"
  by (simp add: fill_explicit_def zero_diagonal_def for_loop_numeral for_loop_zero full_body_def
        eval_stream new_matrix_small mset_def)

lemma full_matrix_letters_load:
  "new_tsplib_loader lm rd cv0 full_matrix_letters = Inr full_matrix_letters_loader"
  unfolding full_matrix_letters_loader_def
  by (rule new_tsplib_loader_explicit
        [OF full_matrix_letters_header(1) stoul_small(2) full_matrix_letters_header(2) explicit_words(1)
            full_matrix_letters_header(3) explicit_words(3) _ full_matrix_letters_header(4) full_matrix_letters_fill])
     simp

lemma dimension_zero_header:
  "regex_search dim_rgx dimension_zero = Some ''0''"
  "regex_search ewt_rgx dimension_zero = Some ''EXPLICIT''"
  "regex_search ewf_rgx dimension_zero = Some ''FULL_MATRIX''"
  "regex_search ews_rgx dimension_zero = Some ''0\<newline>''"
  by code_simp+

lemma dimension_zero_fill:
  "fill_explicit FULL_MATRIX 0 cv0 (istringstream ''0\<newline>'') (new_matrix 0) =
   Inr ([] :: 32 word list list)"
  by (simp add: fill_explicit_def zero_diagonal_def for_loop_numeral for_loop_zero full_body_def
        eval_stream new_matrix_small mset_def)

lemma dimension_zero_load:
  "new_tsplib_loader lm rd cv0 dimension_zero = Inr dimension_zero_loader"
  unfolding dimension_zero_loader_def
  by (rule new_tsplib_loader_explicit
        [OF dimension_zero_header(1) stoul_small(1) dimension_zero_header(2) explicit_words(1)
            dimension_zero_header(3) explicit_words(3) _ dimension_zero_header(4) dimension_zero_fill])
     simp

subsection \<open>The layout of UPPER\_ROW\<close>

lemma for_loop_foldl: "for_loop i n body st = foldl (\<lambda>s k. body k s) st [i..<n]"
proof (induction i n body st rule: for_loop.induct)
  case (1 i n body st)
  show ?case
  proof (cases "i < n")
    case True
    then show ?thesis
      using "1.IH" by (simp add: for_loop.simps [of i] upt_conv_Cons)
  next
    case False
    then show ?thesis
      by (simp add: for_loop.simps [of i])
  qed
qed

lemma foldl_rows:
  "foldl (\<lambda>s i. foldl (\<lambda>s j. body i j s) s (js i)) st rows =
   foldl (\<lambda>s p. body (fst p) (snd p) s) st (concat (map (\<lambda>i. map (Pair i) (js i)) rows))"
  by (induction rows arbitrary: st) (simp_all add: foldl_map)

lemma concat_empty_rows: "concat (map (\<lambda>i. map (Pair i) [Suc i..<0]) rows) = []"
  by (induction rows) simp_all

lemma upper_row_bound:
  assumes "n \<le> 2 ^ 64"
  shows "concat (map (\<lambda>i. map (Pair i) [Suc i..<n]) [0..<size_sub n 1]) = upper_pairs n"
proof (cases "n = 0")
  case True
  then show ?thesis
    by (simp add: upper_pairs_def concat_empty_rows)
next
  case False
  then have "n + 2 ^ 64 - 1 = (n - 1) + 2 ^ 64" and "n - 1 < 2 ^ 64"
    using assms by simp_all
  then have "size_sub n 1 = n - 1"
    unfolding size_sub_def by (simp only: mod_add_self2 mod_less)
  then show ?thesis
    by (simp add: upper_pairs_def)
qed

lemma upper_row_loop:
  assumes "n \<le> 2 ^ 64"
  shows "for_loop 0 (size_sub n 1) (\<lambda>i. for_loop (i + 1) n (body i)) st =
         foldl (\<lambda>s p. body (fst p) (snd p) s) st (upper_pairs n)"
proof -
  have "for_loop 0 (size_sub n 1) (\<lambda>i. for_loop (i + 1) n (body i)) st =
        foldl (\<lambda>s i. foldl (\<lambda>s j. body i j s) s [Suc i..<n]) st [0..<size_sub n 1]"
    by (simp add: for_loop_foldl)
  also have "\<dots> = foldl (\<lambda>s p. body (fst p) (snd p) s) st
                     (concat (map (\<lambda>i. map (Pair i) [Suc i..<n]) [0..<size_sub n 1]))"
    by (rule foldl_rows)
  finally show ?thesis
    by (simp only: upper_row_bound [OF assms])
qed

lemma upper_pairs_member:
  assumes "p \<in> set (upper_pairs n)"
  shows "fst p < snd p \<and> snd p < n"
  using assms by (auto simp: upper_pairs_def)

lemma upper_row_inj:
  assumes "x < n - Suc 0" "y < n - Suc 0" "map (Pair x) [Suc x..<n] = map (Pair y) [Suc y..<n]"
  shows "x = y"
proof -
  have "[Suc x..<n] = Suc x # [Suc (Suc x)..<n]" "[Suc y..<n] = Suc y # [Suc (Suc y)..<n]"
    using assms(1,2) by (simp_all add: upt_conv_Cons)
  then show ?thesis
    using assms(3) by simp
qed

lemma distinct_upper_pairs: "distinct (upper_pairs n)"
  unfolding upper_pairs_def
  by (rule distinct_concat) (auto simp: distinct_map inj_on_def dest: upper_row_inj)

lemma sum_descending: "(\<Sum>i<m. m - i) = (\<Sum>i<m. Suc i)"
proof -
  have "(\<Sum>i<m. m - i) = (\<Sum>i<m. Suc (m - Suc i))"
    by (rule sum.cong) auto
  also have "\<dots> = (\<Sum>i<m. Suc i)"
    by (rule sum.nat_diff_reindex)
  finally show ?thesis .
qed

lemma sum_Suc_below: "(\<Sum>i<m. Suc i) = Suc m * m div 2"
  by (induction m) simp_all

lemma length_upper_pairs: "length (upper_pairs n) = n * (n - 1) div 2"
proof -
  have "length (upper_pairs n) = (\<Sum>i<n - 1. n - Suc i)"
    by (simp add: upper_pairs_def length_concat comp_def interv_sum_list_conv_sum_set_nat
          atLeast0LessThan)
  also have "\<dots> = (\<Sum>i<n - 1. (n - 1) - i)"
    by simp
  also have "\<dots> = (\<Sum>i<n - 1. Suc i)"
    by (rule sum_descending)
  also have "\<dots> = n * (n - 1) div 2"
    by (cases n) (simp_all add: sum_Suc_below)
  finally show ?thesis .
qed

lemma digit_not_space: "isdigit c \<Longrightarrow> \<not> isspace c"
  by (auto simp: isdigit_def isspace_def digit_chars_def space_chars_def)

lemma read_token:
  fixes v :: "'w::len word"
  assumes "list_all isspace pre" and "number_token (2 ^ LENGTH('w)) t"
  shows "read_unsigned \<lparr>buf = pre @ fst t @ snd t @ rest, eofbit = False, failbit = False\<rparr> v =
         (\<lparr>buf = snd t @ rest, eofbit = False, failbit = False\<rparr>, token_value t)"
proof -
  obtain c d where d: "fst t = c # d" "isdigit c" "list_all isdigit d"
    using assms(2) by (cases "fst t") (auto simp: number_token_def)
  obtain b w where w: "snd t = b # w" "isspace b"
    using assms(2) by (cases "snd t") (auto simp: number_token_def)
  have b: "\<not> isdigit b"
    using w(2) digit_not_space by blast
  have 1: "dropWhile isspace (pre @ fst t @ snd t @ rest) = fst t @ snd t @ rest"
    using assms(1) d(2) digit_not_space
    by (simp add: d(1) dropWhile_append2 list_all_iff)
  have 2: "takeWhile isdigit (fst t @ snd t @ rest) = fst t"
    using d b by (simp add: w(1) takeWhile_append2 list_all_iff)
  have 3: "dropWhile isdigit (fst t @ snd t @ rest) = snd t @ rest"
    using d b by (simp add: w(1) dropWhile_append2 list_all_iff)
  have 4: "\<not> 2 ^ LENGTH('w) \<le> nat_of_digits (fst t)"
    using assms(2) by (simp add: number_token_def)
  show ?thesis
    unfolding read_unsigned_def
    by (simp add: good_def 1 2 3 4 Let_def token_value_def) (simp add: d(1) w(1))
qed

lemma numbers_text_Cons: "numbers_text (t # toks) = fst t @ snd t @ numbers_text toks"
  by (simp add: numbers_text_def)

lemma read_fold:
  fixes m :: "'w::len word list list"
  assumes "list_all (number_token (2 ^ LENGTH('w))) toks" and "length ps \<le> length toks"
    and "list_all isspace pre"
  shows "fst (snd (foldl (\<lambda>s p. mirror_body (fst p) (snd p) s)
                      (\<lparr>buf = pre @ numbers_text toks, eofbit = False, failbit = False\<rparr>, m, cv)
                      ps)) =
         foldl (\<lambda>m (p, t). mirror_write m p (token_value t)) m (zip ps toks)"
  using assms
proof (induction ps arbitrary: toks pre m cv)
  case Nil
  show ?case by simp
next
  case (Cons p ps)
  then obtain t toks' where toks: "toks = t # toks'"
    by (cases toks) auto
  have t: "number_token (2 ^ LENGTH('w)) t" and rest: "list_all (number_token (2 ^ LENGTH('w))) toks'"
    and len: "length ps \<le> length toks'"
    using Cons.prems by (simp_all add: toks)
  have sp: "list_all isspace (snd t)"
    using t by (simp add: number_token_def)
  have step: "mirror_body (fst p) (snd p)
                (\<lparr>buf = pre @ numbers_text (t # toks'), eofbit = False, failbit = False\<rparr>, m, cv) =
              (\<lparr>buf = snd t @ numbers_text toks', eofbit = False, failbit = False\<rparr>,
               mirror_write m p (token_value t), token_value t)"
    using read_token [OF Cons.prems(3) t, of "numbers_text toks'" cv]
    by (simp add: mirror_body_def numbers_text_Cons mirror_write_def)
  show ?case
    using Cons.IH [OF rest len sp] by (simp add: step toks)
qed

lemma square_mirror_write: "square n m \<Longrightarrow> square n (mirror_write m p v)"
  by (simp add: mirror_write_def square_mset)

lemma mirror_write_nth:
  assumes "square n m" "a < n" "b < n"
  shows "mirror_write m p v ! a ! b =
         (if a = snd p \<and> b = fst p then v else if a = fst p \<and> b = snd p then v else m ! a ! b)"
  unfolding mirror_write_def
  by (simp only: mset_nth [OF square_mset [OF assms(1)] assms(2,3)] mset_nth [OF assms])

lemma mirror_fold_untouched:
  assumes "square n m" "a < n" "b < n" "(a, b) \<notin> set ps" "(b, a) \<notin> set ps"
  shows "foldl (\<lambda>m (p, v). mirror_write m p v) m (zip ps vs) ! a ! b = m ! a ! b"
  using assms
proof (induction ps arbitrary: m vs)
  case Nil
  show ?case by simp
next
  case (Cons p ps)
  note prems = Cons.prems and IH = Cons.IH
  show ?case
  proof (cases vs)
    case Nil
    then show ?thesis by simp
  next
    case vs: (Cons v vs')
    have n1: "\<not> (a = snd p \<and> b = fst p)"
      using prems(5) by (cases p) auto
    have n2: "\<not> (a = fst p \<and> b = snd p)"
      using prems(4) by (cases p) auto
    have "foldl (\<lambda>m (p, v). mirror_write m p v) (mirror_write m p v) (zip ps vs') ! a ! b =
          mirror_write m p v ! a ! b"
      using prems by (intro IH) (simp_all add: square_mirror_write)
    also have "\<dots> = m ! a ! b"
      by (simp only: mirror_write_nth [OF prems(1,2,3)] n1 n2 if_False)
    finally show ?thesis
      by (simp add: vs)
  qed
qed

lemma mirror_fold_nth:
  assumes "square n m" "distinct ps" "list_all (\<lambda>p. fst p < snd p \<and> snd p < n) ps"
    and "k < length ps" "length ps \<le> length vs"
  shows "foldl (\<lambda>m (p, v). mirror_write m p v) m (zip ps vs) ! fst (ps ! k) ! snd (ps ! k) = vs ! k \<and>
         foldl (\<lambda>m (p, v). mirror_write m p v) m (zip ps vs) ! snd (ps ! k) ! fst (ps ! k) = vs ! k"
  using assms
proof (induction ps arbitrary: m vs k)
  case Nil
  then show ?case by simp
next
  case (Cons p ps)
  note prems = Cons.prems and IH = Cons.IH
  obtain v vs' where vs: "vs = v # vs'"
    using prems(5) by (cases vs) auto
  have sq: "square n (mirror_write m p v)"
    using prems(1) by (rule square_mirror_write)
  show ?case
  proof (cases k)
    case 0
    have p: "fst p < snd p" "snd p < n" "fst p < n"
      using prems(3) by auto
    have "(fst p, snd p) \<notin> set ps"
      using prems(2) by (cases p) simp
    moreover have "(snd p, fst p) \<notin> set ps"
    proof
      assume "(snd p, fst p) \<in> set ps"
      then have "fst (snd p, fst p) < snd (snd p, fst p)"
        using prems(3) by (simp add: list_all_iff del: fst_conv snd_conv)
      then show False
        using p(1) by simp
    qed
    ultimately have out: "(fst p, snd p) \<notin> set ps" "(snd p, fst p) \<notin> set ps" .
    have "foldl (\<lambda>m (p, v). mirror_write m p v) (mirror_write m p v) (zip ps vs') ! fst p ! snd p =
          mirror_write m p v ! fst p ! snd p"
      by (rule mirror_fold_untouched [OF sq p(3) p(2) out(1) out(2)])
    moreover have "foldl (\<lambda>m (p, v). mirror_write m p v) (mirror_write m p v) (zip ps vs') ! snd p ! fst p =
          mirror_write m p v ! snd p ! fst p"
      by (rule mirror_fold_untouched [OF sq p(2) p(3) out(2) out(1)])
    moreover have "mirror_write m p v ! fst p ! snd p = v" "mirror_write m p v ! snd p ! fst p = v"
      using p by (simp_all add: mirror_write_nth [OF prems(1)])
    ultimately show ?thesis
      by (simp add: 0 vs)
  next
    case (Suc k')
    then show ?thesis
      using IH [OF sq, of k' vs'] prems by (simp add: vs)
  qed
qed

lemma zero_diagonal_off_diagonal:
  fixes m :: "'w::len word list list"
  assumes "square n m" "a < n" "b < n" "a \<noteq> b"
  shows "zero_diagonal k m ! a ! b = m ! a ! b"
proof -
  have "square n (zero_diagonal k m) \<and> zero_diagonal k m ! a ! b = m ! a ! b"
    unfolding zero_diagonal_def
    by (rule for_loop_inv [where P = "\<lambda>m'. square n m' \<and> m' ! a ! b = m ! a ! b"])
       (use assms in \<open>auto simp: square_mset mset_nth [of n]\<close>)
  then show ?thesis ..
qed

lemma square_mirror_fold:
  "square n m \<Longrightarrow> square n (foldl (\<lambda>m (p, v). mirror_write m p v) m pvs)"
  by (induction pvs arbitrary: m) (auto simp: square_mirror_write)

lemma foldl_token_values:
  "foldl (\<lambda>m (p, t). mirror_write m p (token_value t)) m (zip ps toks) =
   foldl (\<lambda>m (p, v). mirror_write m p v) m (zip ps (map token_value toks))"
  by (induction ps arbitrary: m toks) (auto simp: zip_Cons1 split: list.splits)

lemma upper_row_fill_layout:
  fixes cv0 :: "'w::len word"
  assumes "n \<le> 2 ^ 64" and "list_all (number_token (2 ^ LENGTH('w))) toks"
    and "n * (n - 1) div 2 \<le> length toks" and "k < n * (n - 1) div 2"
  shows "\<exists>m. fill_explicit UPPER_ROW n cv0 (istringstream (numbers_text toks)) (new_matrix n) = Inr m \<and>
             fst (upper_pairs n ! k) < snd (upper_pairs n ! k) \<and> snd (upper_pairs n ! k) < n \<and>
             m ! fst (upper_pairs n ! k) ! snd (upper_pairs n ! k) = token_value (toks ! k) \<and>
             m ! snd (upper_pairs n ! k) ! fst (upper_pairs n ! k) = token_value (toks ! k)"
proof -
  let ?ps = "upper_pairs n"
  let ?vs = "map token_value toks :: 'w word list"
  define M where "M = foldl (\<lambda>m (p, v). mirror_write m p v) (new_matrix n :: 'w word list list) (zip ?ps ?vs)"
  have len: "length ?ps \<le> length toks" and k: "k < length ?ps"
    using assms(3,4) by (simp_all add: length_upper_pairs)
  have mem: "list_all (\<lambda>p. fst p < snd p \<and> snd p < n) ?ps"
    using upper_pairs_member by (auto simp: list_all_iff)
  then have p: "fst (?ps ! k) < snd (?ps ! k)" "snd (?ps ! k) < n"
    using k by (simp_all add: list_all_length)
  have loop: "fst (snd (for_loop 0 (size_sub n 1) (\<lambda>i. for_loop (i + 1) n (mirror_body i))
                          (istringstream (numbers_text toks), new_matrix n, cv0))) = M"
    unfolding upper_row_loop [OF assms(1)] istringstream_def
    using read_fold [OF assms(2) len, of "[]" "new_matrix n" cv0]
    by (simp add: foldl_token_values M_def)
  have sq: "square n M"
    unfolding M_def by (rule square_mirror_fold) (rule square_new_matrix)
  have v: "M ! fst (?ps ! k) ! snd (?ps ! k) = token_value (toks ! k) \<and>
           M ! snd (?ps ! k) ! fst (?ps ! k) = token_value (toks ! k)"
    using mirror_fold_nth [OF square_new_matrix distinct_upper_pairs mem k, of ?vs] len k
    by (simp add: M_def)
  have "zero_diagonal n M ! fst (?ps ! k) ! snd (?ps ! k) = M ! fst (?ps ! k) ! snd (?ps ! k)"
    "zero_diagonal n M ! snd (?ps ! k) ! fst (?ps ! k) = M ! snd (?ps ! k) ! fst (?ps ! k)"
    using p by (simp_all add: zero_diagonal_off_diagonal [OF sq])
  then show ?thesis
    unfolding fill_explicit_def EWF.case loop using v p by simp
qed

lemma upper_row_layout:
  fixes cv0 :: "'w::len word"
  assumes "regex_search dim_rgx input = Some dim_str" and "stoul dim_str = Inr n"
    and "regex_search ewt_rgx input = Some type" and "ewt_of type = EXPLICIT"
    and "regex_search ewf_rgx input = Some format" and "ewf_of format = UPPER_ROW"
    and "regex_search ews_rgx input = Some (numbers_text toks)"
    and "list_all (number_token (2 ^ LENGTH('w))) toks"
    and "n * (n - 1) div 2 \<le> length toks" and "k < n * (n - 1) div 2"
  shows "\<exists>L. new_tsplib_loader lm rd cv0 input = Inr L \<and> dimension L = n \<and>
             fst (upper_pairs n ! k) < snd (upper_pairs n ! k) \<and> snd (upper_pairs n ! k) < n \<and>
             matrix L ! fst (upper_pairs n ! k) ! snd (upper_pairs n ! k) = token_value (toks ! k) \<and>
             matrix L ! snd (upper_pairs n ! k) ! fst (upper_pairs n ! k) = token_value (toks ! k)"
proof -
  have "n \<le> 2 ^ 64"
    using assms(2) by (simp add: stoul_def split: if_splits)
  then obtain m where "fill_explicit UPPER_ROW n cv0 (istringstream (numbers_text toks)) (new_matrix n) = Inr m"
    and "fst (upper_pairs n ! k) < snd (upper_pairs n ! k)" "snd (upper_pairs n ! k) < n"
    and "m ! fst (upper_pairs n ! k) ! snd (upper_pairs n ! k) = token_value (toks ! k)"
    and "m ! snd (upper_pairs n ! k) ! fst (upper_pairs n ! k) = token_value (toks ! k)"
    using upper_row_fill_layout [OF _ assms(8,9,10), of cv0] by blast
  then show ?thesis
    using assms(1-7) by (simp add: new_tsplib_loader_def)
qed

lemma upper_pairs_3: "upper_pairs 3 = [(0, 1), (0, 2), (1, 2)]"
  by (simp add: upper_pairs_def upt_conv_Cons numeral_3_eq_3)

lemma upper_row_tokens_text: "numbers_text upper_row_tokens = ''10 15 20\<newline>''"
  by (simp add: numbers_text_def upper_row_tokens_def)

lemma upper_row_tokens_ok: "list_all (number_token (2 ^ LENGTH(32))) upper_row_tokens"
  by (simp add: number_token_def upper_row_tokens_def isdigit_def isspace_def digit_chars_def
        space_chars_def nat_of_digits_def digit_val_def)

subsection \<open>The constructor on any input\<close>

lemma fill_explicit_returns:
  assumes "f \<noteq> EWF_NONE" "square n m"
  shows "\<exists>m'. square n m' \<and> fill_explicit f n cv0 data m = Inr m'"
proof -
  obtain m' where m': "fill_explicit f n cv0 data m = Inr m'"
    using assms(1) by (cases f) (simp_all add: fill_explicit_def)
  then have "square n m'"
    using assms(2) by (rule fill_explicit_square)
  then show ?thesis
    using m' by blast
qed

lemma read_nodes_zero: "read_nodes rd 0 data = []"
  by (simp add: read_nodes_def for_loop_zero)

lemma fill_coords_zero: "fill_coords f 0 ns m = Some m"
  by (simp add: fill_coords_def for_loop_zero)

lemma fill_explicit_zero:
  assumes "f \<noteq> EWF_NONE" "f \<noteq> UPPER_ROW"
  shows "fill_explicit f 0 cv0 data [] = Inr []"
  using assms by (cases f) (simp_all add: fill_explicit_def zero_diagonal_def for_loop_zero)

lemma dist_f_Some:
  "t \<noteq> EWT_NONE \<Longrightarrow> t \<noteq> EXPLICIT \<Longrightarrow>
   \<exists>f. dist_f lm t = Some (f :: Node \<Rightarrow> Node \<Rightarrow> 'w::len word option)"
  by (cases t) (simp_all add: dist_f_def)

subsection \<open>Strings built by the printing loops\<close>

lemma foldl_append_items:
  "foldl (\<lambda>r x. r @ g x) acc xs = acc @ concat (map g xs)"
  by (induction xs arbitrary: acc) simp_all

lemma concat_items_comma:
  "xs \<noteq> [] \<Longrightarrow> concat (map (\<lambda>x. f x @ '','') xs) = comma_separated (map f xs) @ '',''"
proof (induction xs rule: list_nonempty_induct)
  case (single x)
  show ?case by simp
next
  case (cons x xs)
  then obtain y ys where "xs = y # ys"
    by (cases xs) auto
  with cons show ?case by simp
qed

lemma pop_back_loop:
  assumes "xs \<noteq> []"
  shows "pop_back (foldl (\<lambda>r x. r @ f x @ '','') acc xs) = acc @ comma_separated (map f xs)"
proof -
  have "foldl (\<lambda>r x. r @ f x @ '','') acc xs = (acc @ comma_separated (map f xs)) @ '',''"
    using foldl_append_items [of "\<lambda>x. f x @ '',''" acc xs] concat_items_comma [OF assms, of f]
    by simp
  then show ?thesis
    by (simp only: pop_back_def butlast_snoc)
qed

lemma nat_of_digits_snoc: "nat_of_digits (ds @ [c]) = 10 * nat_of_digits ds + digit_val c"
  by (simp add: nat_of_digits_def)

lemma digit_val_digit_char: "d < 10 \<Longrightarrow> digit_val (digit_char d) = d"
  by (simp add: digit_val_def digit_char_def)

lemma nat_of_digits_to_string_nat: "nat_of_digits (to_string_nat n) = n"
proof (induction n rule: to_string_nat.induct)
  case (1 n)
  show ?case
  proof (cases "n < 10")
    case True
    then show ?thesis
      by (simp add: to_string_nat.simps [of n] nat_of_digits_def digit_val_digit_char)
  next
    case False
    then show ?thesis
      using "1.IH"
      by (simp add: to_string_nat.simps [of n] nat_of_digits_snoc digit_val_digit_char)
  qed
qed

lemma digit_char_small:
  "digit_char 0 = CHR ''0''" "digit_char (Suc 0) = CHR ''1''"
  by code_simp+

lemma to_string_nat_small:
  "to_string_nat 0 = ''0''" "to_string_nat (Suc 0) = ''1''"
  "to_string_nat (Suc (Suc 0)) = ''2''" "to_string_nat (Suc (Suc (Suc 0))) = ''3''"
  "to_string_nat 2 = ''2''" "to_string_nat 3 = ''3''"
  by code_simp+

lemma to_string_double_small:
  "to_string_double (Number False 0) = ''0.000000''"
  "to_string_double (Number False 1) = ''1.000000''"
  by (simp_all add: to_string_double.simps round_even_def to_string_nat_small digit_char_small)

subsection \<open>Rounding to a \<^verbatim>\<open>double\<close>\<close>

lemma round_even_of_int: "round_even (of_int k) = k"
  by (simp add: round_even_def)

lemma round_even_ge: "of_int k \<le> y \<Longrightarrow> k \<le> round_even y"
  unfolding round_even_def by (auto simp: le_floor_iff) (linarith+)?

lemma round_even_le: "y \<le> of_int k \<Longrightarrow> round_even y \<le> k"
proof -
  assume a: "y \<le> of_int k"
  show ?thesis
  proof (cases "y = of_int k")
    case True
    then show ?thesis by (simp add: round_even_of_int)
  next
    case False
    then have "y < of_int k" using a by simp
    then have "\<lfloor>y\<rfloor> < k" by (simp add: floor_less_iff)
    then have "\<lfloor>y\<rfloor> + 1 \<le> k" by simp
    moreover have "round_even y \<le> \<lfloor>y\<rfloor> + 1" by (simp add: round_even_def)
    ultimately show ?thesis by linarith
  qed
qed

lemma round_even_mono: "x \<le> y \<Longrightarrow> round_even x \<le> round_even y"
proof -
  assume a: "x \<le> y"
  have f: "\<lfloor>x\<rfloor> \<le> \<lfloor>y\<rfloor>" using a by (rule floor_mono)
  show ?thesis
  proof (cases "\<lfloor>x\<rfloor> = \<lfloor>y\<rfloor>")
    case True
    then show ?thesis using a unfolding round_even_def by auto
  next
    case False
    then have "\<lfloor>x\<rfloor> + 1 \<le> \<lfloor>y\<rfloor>" using f by simp
    moreover have "round_even x \<le> \<lfloor>x\<rfloor> + 1" by (simp add: round_even_def)
    moreover have "\<lfloor>y\<rfloor> \<le> round_even y" by (simp add: round_even_def)
    ultimately show ?thesis by linarith
  qed
qed

lemma pow2_pos: "0 < (2::real) powi k"
  by simp

lemma pow2_less_iff: "((2::real) powi m < 2 powi n) = (m < n)"
proof
  assume a: "(2::real) powi m < 2 powi n"
  show "m < n"
  proof (rule ccontr)
    assume "\<not> m < n"
    then have "n \<le> m" by simp
    then have "(2::real) powi n \<le> 2 powi m" by (rule power_int_increasing) simp
    then show False using a by simp
  qed
next
  assume "m < n"
  then show "(2::real) powi m < 2 powi n" by (rule power_int_strict_increasing) simp
qed

lemma pow2_le_iff: "((2::real) powi m \<le> 2 powi n) = (m \<le> n)"
  using pow2_less_iff [of n m] by (simp add: not_less [symmetric])

lemma pow2_add: "(2::real) powi (m + n) = 2 powi m * 2 powi n"
  by (rule power_int_add) simp

lemma pow2_diff: "(2::real) powi (m - n) = 2 powi m / 2 powi n"
  by (rule power_int_diff) simp

lemma ulp_pos: "0 < ulp x"
  by (simp add: ulp_def)

lemma binade_ge: "- 1022 \<le> binade x"
  by (simp add: binade_def)

lemma floor_log2_iff:
  assumes "0 < x"
  shows "(\<lfloor>log 2 x\<rfloor> = k) = (2 powi k \<le> x \<and> x < 2 powi (k + 1))"
proof -
  have a: "(2::real) powr real_of_int k = 2 powi k"
    by (rule powr_real_of_int') simp_all
  have b: "(2::real) powr real_of_int (k + 1) = 2 powi (k + 1)"
    by (rule powr_real_of_int') simp_all
  show ?thesis
    using floor_log_eq_powr_iff [of x 2 k] assms unfolding a b by simp
qed

lemma binade_eq:
  assumes "2 powi k \<le> x" and "x < 2 powi (k + 1)" and "- 1022 \<le> k"
  shows "binade x = k"
proof -
  have x: "0 < x" using assms(1) pow2_pos [of k] by linarith
  have "\<lfloor>log 2 x\<rfloor> = k"
    using assms(1,2) x by (simp add: floor_log2_iff)
  then show ?thesis using assms(3) by (simp add: binade_def)
qed

lemma binade_small:
  assumes "0 < x" and "x < 2 powi (- 1022)"
  shows "binade x = - 1022"
proof -
  define k where "k = \<lfloor>log 2 x\<rfloor>"
  have "2 powi k \<le> x"
    using floor_log2_iff [of x k] assms(1) by (simp add: k_def)
  then have "(2::real) powi k < 2 powi (- 1022)" using assms(2) by linarith
  then have "k < - 1022" by (simp only: pow2_less_iff)
  then show ?thesis by (simp add: binade_def k_def)
qed

lemma binade_upper:
  assumes "0 < x"
  shows "x < 2 powi (binade x + 1)"
proof -
  define k where "k = \<lfloor>log 2 x\<rfloor>"
  have "x < 2 powi (k + 1)"
    using floor_log2_iff [of x k] assms(1) by (simp add: k_def)
  also have "\<dots> \<le> 2 powi (binade x + 1)"
    by (rule power_int_increasing) (simp_all add: binade_def k_def)
  finally show ?thesis .
qed

lemma binade_lower:
  assumes "2 powi (- 1022) \<le> x"
  shows "2 powi (binade x) \<le> x"
proof -
  have x: "0 < x" using assms pow2_pos [of "- 1022"] by linarith
  define k where "k = \<lfloor>log 2 x\<rfloor>"
  have k: "2 powi k \<le> x" "x < 2 powi (k + 1)"
    using floor_log2_iff [of x k] x by (simp_all add: k_def)
  have "(2::real) powi (- 1022) < 2 powi (k + 1)" using assms k(2) by linarith
  then have "- 1022 < k + 1" by (simp only: pow2_less_iff)
  then have "binade x = k" by (simp add: binade_def k_def)
  then show ?thesis using k(1) by simp
qed

lemma rnd_zero: "rnd 0 = 0"
  by (simp add: rnd_def round_even_def)

lemma rnd_nonneg: "0 \<le> x \<Longrightarrow> 0 \<le> rnd x"
proof -
  assume "0 \<le> x"
  then have "of_int 0 \<le> x / ulp x" using ulp_pos [of x] by simp
  then have "0 \<le> round_even (x / ulp x)" by (rule round_even_ge)
  then show ?thesis using ulp_pos [of x] by (simp add: rnd_def)
qed

text \<open>A multiple of its unit in the last place is its own rounding.\<close>

lemma rnd_grid: "x = of_int k * ulp x \<Longrightarrow> rnd x = x"
proof -
  assume a: "x = of_int k * ulp x"
  have "x / ulp x = of_int k"
    using ulp_pos [of x] a by (metis nonzero_eq_divide_eq less_irrefl)
  then show ?thesis using a by (simp add: rnd_def round_even_of_int)
qed

lemma rnd_upper:
  assumes "0 < x"
  shows "rnd x \<le> 2 powi (binade x + 1)"
proof -
  have "x / ulp x < 2 powi (binade x + 1) / ulp x"
    using binade_upper [OF assms] ulp_pos [of x] by (simp add: divide_strict_right_mono)
  also have "\<dots> = 2 powi 53"
    unfolding ulp_def pow2_diff [symmetric] by simp
  finally have "x / ulp x \<le> of_int (2 ^ 53)" by simp
  then have "round_even (x / ulp x) \<le> 2 ^ 53" by (rule round_even_le)
  then have "real_of_int (round_even (x / ulp x)) \<le> 2 powi 53" by simp
  then have "rnd x \<le> 2 powi 53 * ulp x"
    unfolding rnd_def using ulp_pos [of x] by (simp add: mult_right_mono)
  also have "\<dots> = 2 powi (binade x + 1)"
    unfolding ulp_def pow2_add [symmetric] by (simp add: add.commute)
  finally show ?thesis .
qed

lemma rnd_lower:
  assumes "2 powi (- 1022) \<le> x"
  shows "2 powi (binade x) \<le> rnd x"
proof -
  have "2 powi 52 = 2 powi (binade x) / ulp x"
    unfolding ulp_def pow2_diff [symmetric] by simp
  also have "\<dots> \<le> x / ulp x"
    using binade_lower [OF assms] ulp_pos [of x] by (simp add: divide_right_mono)
  finally have "of_int (2 ^ 52) \<le> x / ulp x" by simp
  then have "2 ^ 52 \<le> round_even (x / ulp x)" by (rule round_even_ge)
  then have "2 powi 52 \<le> real_of_int (round_even (x / ulp x))" by simp
  then have "2 powi 52 * ulp x \<le> rnd x"
    unfolding rnd_def using ulp_pos [of x] by (simp add: mult_right_mono)
  moreover have "2 powi 52 * ulp x = 2 powi (binade x)"
    unfolding ulp_def pow2_add [symmetric] by simp
  ultimately show ?thesis by simp
qed

lemma binade_mono:
  assumes "0 < x" and "x \<le> y"
  shows "binade x \<le> binade y"
proof (cases "x < 2 powi (- 1022)")
  case True
  then show ?thesis using assms(1) by (simp add: binade_small binade_ge)
next
  case False
  then have x: "2 powi (- 1022) \<le> x" by simp
  have "2 powi (binade x) \<le> x" using x by (rule binade_lower)
  also have "x \<le> y" by fact
  also have "y < 2 powi (binade y + 1)" using assms by (intro binade_upper) simp
  finally have "binade x < binade y + 1" by (simp only: pow2_less_iff)
  then show ?thesis by simp
qed

lemma rnd_mono:
  assumes "0 \<le> x" and "x \<le> y"
  shows "rnd x \<le> rnd y"
proof (cases "x = 0")
  case True
  then show ?thesis using assms rnd_nonneg [of y] by (simp add: rnd_zero)
next
  case False
  then have x: "0 < x" using assms(1) by simp
  have le: "binade x \<le> binade y" using x assms(2) by (rule binade_mono)
  show ?thesis
  proof (cases "binade x = binade y")
    case True
    then have u: "ulp x = ulp y" by (simp add: ulp_def)
    have "x / ulp y \<le> y / ulp y" using assms(2) ulp_pos [of y] by (simp add: divide_right_mono)
    then have "round_even (x / ulp y) \<le> round_even (y / ulp y)" by (rule round_even_mono)
    then show ?thesis unfolding rnd_def u using ulp_pos [of y] by (simp add: mult_right_mono)
  next
    case False
    then have lt: "binade x + 1 \<le> binade y" using le by simp
    then have "- 1022 < binade y" using binade_ge [of x] by linarith
    have y: "2 powi (- 1022) \<le> y"
    proof (rule ccontr)
      assume "\<not> 2 powi (- 1022) \<le> y"
      then have "binade y = - 1022" using x assms(2) by (intro binade_small) simp_all
      then show False using \<open>- 1022 < binade y\<close> by simp
    qed
    have "rnd x \<le> 2 powi (binade x + 1)" using x by (rule rnd_upper)
    also have "\<dots> \<le> 2 powi (binade y)" using lt by (simp only: pow2_le_iff)
    also have "\<dots> \<le> rnd y" using y by (rule rnd_lower)
    finally show ?thesis .
  qed
qed


lemma rnd_exact:
  assumes x: "x = of_int m * 2 powi e" and m: "0 \<le> m" "m < 2 ^ 53" and e: "- 1074 \<le> e"
  shows "rnd x = x"
proof (cases "m = 0")
  case True
  then show ?thesis using x by (simp add: rnd_zero)
next
  case False
  then have mpos: "0 < m" using m(1) by simp
  then have xpos: "0 < x" using x by simp
  define k where "k = binade x"
  have u: "ulp x = 2 powi (k - 52)" by (simp add: ulp_def k_def)
  have le: "k - 52 \<le> e"
  proof (rule ccontr)
    assume "\<not> k - 52 \<le> e"
    then have lt: "e + 53 \<le> k" by simp
    then have "- 1022 < k" using e by linarith
    have "2 powi (- 1022) \<le> x"
    proof (rule ccontr)
      assume "\<not> 2 powi (- 1022) \<le> x"
      then have "binade x = - 1022" using xpos by (intro binade_small) simp_all
      then show False using \<open>- 1022 < k\<close> by (simp add: k_def)
    qed
    then have "2 powi k \<le> x" unfolding k_def by (rule binade_lower)
    moreover have "x < 2 powi (e + 53)"
    proof -
      have "real_of_int m < 2 powi 53" using m(2) by simp
      then have "of_int m * 2 powi e < 2 powi 53 * (2::real) powi e"
        by (intro mult_strict_right_mono) simp_all
      then show ?thesis unfolding x pow2_add [symmetric] by (simp add: add.commute)
    qed
    moreover have "(2::real) powi (e + 53) \<le> 2 powi k" using lt by (simp only: pow2_le_iff)
    ultimately show False by linarith
  qed
  define d where "d = nat (e - (k - 52))"
  have "e = int d + (k - 52)" using le by (simp add: d_def)
  then have "(2::real) powi e = 2 ^ d * 2 powi (k - 52)"
    by (simp only: pow2_add power_int_of_nat)
  then have "of_int m * 2 powi e = of_int (m * 2 ^ d) * (2::real) powi (k - 52)" by simp
  then have "x = of_int (m * 2 ^ d) * ulp x" using x u by simp
  then show ?thesis by (rule rnd_grid)
qed

lemma rnd_int: "0 \<le> m \<Longrightarrow> m \<le> 2 ^ 53 \<Longrightarrow> rnd (of_int m) = of_int m"
proof -
  assume a: "0 \<le> m" "m \<le> 2 ^ 53"
  show ?thesis
  proof (cases "m = 2 ^ 53")
    case True
    have "rnd (of_int 1 * 2 powi 53) = of_int 1 * 2 powi 53"
      by (rule rnd_exact [OF refl]) simp_all
    then show ?thesis using True by simp
  next
    case False
    then have "m < 2 ^ 53" using a(2) by simp
    then show ?thesis using rnd_exact [of "of_int m" m 0] a(1) by simp
  qed
qed

lemma rnd_frac:
  "0 \<le> m \<Longrightarrow> m < 2 ^ 53 \<Longrightarrow> n \<le> 1074 \<Longrightarrow> rnd (of_int m / 2 ^ n) = of_int m / 2 ^ n"
  using rnd_exact [of "of_int m / 2 ^ n" m "- int n"]
  by (simp add: power_int_minus field_simps)

lemma rnd_le: "0 \<le> x \<Longrightarrow> x \<le> d \<Longrightarrow> rnd d = d \<Longrightarrow> rnd x \<le> d"
  using rnd_mono [of x d] by simp

lemma rnd_ge: "0 \<le> d \<Longrightarrow> d \<le> x \<Longrightarrow> rnd d = d \<Longrightarrow> d \<le> rnd x"
  using rnd_mono [of d x] by simp

lemma with_sign_simps [simp]: "with_sign False a = a" "with_sign True a = - a"
  by (simp_all add: with_sign_def)

lemma below_overflow: "a < 2 ^ 31 \<Longrightarrow> a < (2::real) ^ 1024"
proof -
  assume "a < 2 ^ 31"
  moreover have "(2::real) ^ 31 \<le> 2 ^ 1024" by (rule power_increasing) simp_all
  ultimately show ?thesis by linarith
qed

lemma rounded_Number: "rnd a < 2 ^ 31 \<Longrightarrow> rounded s a = Number s (rnd a)"
  using below_overflow [of "rnd a"] by (simp add: rounded_def)

lemma round_result_pos:
  "0 \<le> v \<Longrightarrow> rnd v < 2 ^ 31 \<Longrightarrow> round_result False v = Number False (rnd v)"
  by (simp add: round_result_def rounded_Number)

lemma round_result_exact:
  "0 \<le> v \<Longrightarrow> rnd v = v \<Longrightarrow> v < 2 ^ 31 \<Longrightarrow> round_result False v = Number False v"
  using round_result_pos [of v] by simp

lemma rnd_small:
  "rnd 0 = 0" "rnd 1 = 1" "rnd (1 / 2) = 1 / 2" "rnd 10 = 10" "rnd 3 = 3" "rnd 5 = 5"
  "rnd 180 = 180" 
  using rnd_int [of 0] rnd_int [of 1] rnd_frac [of 1 1] rnd_int [of 10] rnd_int [of 3]
    rnd_int [of 5] rnd_int [of 180]
  by simp_all

lemma double_literal_small:
  "double_literal 0 = Number False 0" "double_literal 1 = Number False 1"
  "double_literal (1 / 2) = Number False (1 / 2)" "double_literal 10 = Number False 10"
  "double_literal 3 = Number False 3" "double_literal 5 = Number False 5" "double_literal 180 = Number False 180"
  unfolding double_literal_def by (rule round_result_exact; simp add: rnd_small)+

lemma int_cast_nonneg:
  assumes "0 \<le> a" and "a < 2 ^ 31"
  shows "int_cast (Number False a) = Some \<lfloor>a\<rfloor>"
proof -
  have "\<lfloor>a\<rfloor> < 2 ^ 31" using assms(2) by (simp add: floor_less_iff)
  moreover have "0 \<le> \<lfloor>a\<rfloor>" using assms(1) by simp
  ultimately show ?thesis using assms(1) by (simp add: trunc_zero_def)
qed

text \<open>\<open>nint\<close> of a number that is at least \<open>-0.5\<close>.\<close>

lemma nint_floor_sum:
  assumes "- (1 / 2) \<le> with_sign s a" and "rnd (with_sign s a + 1 / 2) < 2 ^ 31"
  shows "(nint (Number s a) :: 'w::len word option) =
         Some (word_of_int \<lfloor>rnd (with_sign s a + 1 / 2)\<rfloor>)"
proof -
  define y where "y = with_sign s a + 1 / 2"
  have y: "0 \<le> y" using assms(1) by (simp add: y_def)
  have "fadd (Number s a) (double_literal (1 / 2)) = round_result False y"
    by (simp add: double_literal_small y_def)
  also have "\<dots> = Number False (rnd y)"
    using y assms(2) by (simp add: round_result_pos y_def)
  finally have "fadd (Number s a) (double_literal (1 / 2)) = Number False (rnd y)" .
  moreover have "int_cast (Number False (rnd y)) = Some \<lfloor>rnd y\<rfloor>"
    using y assms(2) by (intro int_cast_nonneg rnd_nonneg) (simp_all add: y_def)
  ultimately show ?thesis by (simp add: nint_def y_def)
qed


text \<open>The value of a rounding is a multiple of the unit in the last place of its argument.\<close>

lemma rnd_idem:
  assumes "0 \<le> x"
  shows "rnd (rnd x) = rnd x"
proof (cases "x = 0")
  case True
  then show ?thesis by (simp add: rnd_zero)
next
  case False
  then have x: "0 < x" using assms by simp
  define K where "K = round_even (x / ulp x)"
  have r: "rnd x = of_int K * 2 powi (binade x - 52)" by (simp add: rnd_def K_def ulp_def)
  have K0: "0 \<le> K"
    unfolding K_def using x ulp_pos [of x] by (intro round_even_ge) simp
  have e: "(2::real) powi (binade x + 1) = 2 powi 53 * 2 powi (binade x - 52)"
    unfolding pow2_add [symmetric] by (simp add: add.commute)
  have "rnd x \<le> 2 powi (binade x + 1)" using x by (rule rnd_upper)
  also note e
  finally have "of_int K * 2 powi (binade x - 52) \<le> 2 powi 53 * (2::real) powi (binade x - 52)"
    unfolding r .
  then have "real_of_int K \<le> 2 powi 53" by (simp only: mult_le_cancel_right_pos pow2_pos)
  then have K1: "K \<le> 2 ^ 53" by (simp flip: of_int_le_iff)
  show ?thesis
  proof (cases "K = 2 ^ 53")
    case True
    have "rnd x = of_int 1 * 2 powi (binade x + 1)"
      unfolding r True e by simp
    then show ?thesis
      using binade_ge [of x] by (intro rnd_exact [of _ 1 "binade x + 1"]) simp_all
  next
    case False
    then have "K < 2 ^ 53" using K1 by simp
    then show ?thesis using r K0 binade_ge [of x] by (intro rnd_exact [of _ K "binade x - 52"]) simp_all
  qed
qed

lemma double_on_grid:
  assumes "rnd a = a"
  shows "\<exists>K. a = of_int K * 2 powi (binade a - 52)"
  using assms unfolding rnd_def ulp_def by metis

text \<open>
  Adding \<open>0.5\<close> to a number and rounding to a \<^verbatim>\<open>double\<close> keeps the integer part of the exact
  sum, for every number from \<open>-0.5\<close> on but the greatest \<^verbatim>\<open>double\<close> below \<open>0.5\<close>.
\<close>

lemma floor_rnd_half:
  assumes nn: "0 \<le> a" and dbl: "rnd a = a" and lo: "- (1 / 2) \<le> with_sign s a"
    and ne: "with_sign s a \<noteq> 1 / 2 - 1 / 2 ^ 54" and hi: "rnd (with_sign s a + 1 / 2) < 2 ^ 31"
  shows "\<lfloor>rnd (with_sign s a + 1 / 2)\<rfloor> = \<lfloor>with_sign s a + 1 / 2\<rfloor>"
proof -
  define v where "v = with_sign s a"
  define y where "y = v + 1 / 2"
  define n where "n = \<lfloor>y\<rfloor>"
  have y0: "0 \<le> y" using lo by (simp add: y_def v_def)
  have n0: "0 \<le> n" using y0 by (simp add: n_def)
  have ylt: "y < 2 ^ 31"
  proof (rule ccontr)
    assume "\<not> y < 2 ^ 31"
    then have "real_of_int (2 ^ 31) \<le> y" by simp
    moreover have "rnd (real_of_int (2 ^ 31)) = real_of_int (2 ^ 31)" by (rule rnd_int) simp_all
    ultimately have "real_of_int (2 ^ 31) \<le> rnd y" by (intro rnd_ge) simp_all
    then show False using hi by (simp add: y_def v_def)
  qed
  then have n1: "n < 2 ^ 31" by (simp add: n_def floor_less_iff)
  have low: "of_int n \<le> rnd y"
  proof (rule rnd_ge)
    show "0 \<le> real_of_int n" using n0 by simp
    show "real_of_int n \<le> y" by (simp add: n_def)
    show "rnd (real_of_int n) = real_of_int n" using n0 n1 by (intro rnd_int) simp_all
  qed
  have up: "rnd y < of_int n + 1"
  proof (cases "v < 1 / 4")
    case True
    then have "y \<le> 3 / 4" by (simp add: y_def)
    moreover have "rnd (3 / 4) = 3 / 4" using rnd_frac [of 3 2] by simp
    ultimately have "rnd y \<le> 3 / 4" using y0 by (intro rnd_le) simp_all
    then show ?thesis using n0 by linarith
  next
    case False
    then have v4: "1 / 4 \<le> v" by simp
    then have va: "v = a" using nn by (cases s) (simp_all add: v_def)
    obtain K where K: "a = of_int K * 2 powi (binade a - 52)"
      using double_on_grid [OF dbl] by blast
    show ?thesis
    proof (cases "v < 1 / 2")
      case True
      have "binade a = - 2"
        using v4 True va by (intro binade_eq) (simp_all add: power_int_minus)
      then have a: "a = of_int K / 2 ^ 54" using K by (simp add: power_int_minus field_simps)
      then have "real_of_int K < 2 ^ 53" using True va by (simp add: field_simps)
      then have "K < 2 ^ 53" by (simp flip: of_int_less_iff)
      moreover have "K \<noteq> 2 ^ 53 - 1"
      proof
        assume "K = 2 ^ 53 - 1"
        then have "a = 1 / 2 - 1 / 2 ^ 54" unfolding a by (simp add: field_simps)
        then show False using ne va by (simp add: v_def)
      qed
      ultimately have "K \<le> 2 ^ 53 - 2" by simp
      then have "real_of_int K \<le> 2 ^ 53 - 2" by (simp flip: of_int_le_iff)
      then have "y \<le> of_int (2 ^ 53 - 1) / 2 ^ 53"
        unfolding y_def va a by (simp add: field_simps)
      moreover have "rnd (of_int (2 ^ 53 - 1) / 2 ^ 53) = of_int (2 ^ 53 - 1) / 2 ^ 53"
        by (rule rnd_frac) simp_all
      ultimately have "rnd y \<le> of_int (2 ^ 53 - 1) / 2 ^ 53"
        using y0 by (intro rnd_le) simp_all
      also have "\<dots> < 1" by simp
      finally show ?thesis using n0 by linarith
    next
      case False
      then have v2: "1 / 2 \<le> v" by simp
      then have y1: "1 \<le> y" by (simp add: y_def)
      define j where "j = binade y"
      have "(2::real) powi (- 1022) \<le> 2 powi 0" by (simp only: pow2_le_iff; simp)
      then have ylow: "2 powi (- 1022) \<le> y" using y1 by simp
      have jl: "2 powi j \<le> y" unfolding j_def using ylow by (rule binade_lower)
      have ju: "y < 2 powi (j + 1)" unfolding j_def using y1 by (intro binade_upper) simp
      have "(2::real) powi 0 < 2 powi (j + 1)" using y1 ju by simp
      then have j0: "0 \<le> j" by (simp only: pow2_less_iff; simp)
      have "(2::real) powi j < 2 powi 31" using jl ylt by simp
      then have j30: "j \<le> 30" by (simp only: pow2_less_iff; simp)
      define J where "J = nat j"
      have jJ: "j = int J" using j0 by (simp add: J_def)
      have J30: "J \<le> 30" using j30 jJ by simp
      have pj: "(2::real) powi j = 2 ^ J" by (simp add: jJ)
      show ?thesis
      proof (cases "2 powi j \<le> a")
        case True
        have "a < 2 powi (j + 1)" using ju va by (simp add: y_def)
        then have "binade a = j" using True j0 by (intro binade_eq) simp_all
        then have a: "a = of_int K * 2 powi (j - 52)" using K by simp
        have "(1 / 2 :: real) = 2 ^ (51 - J) * 2 powi (j - 52)"
        proof -
          have "j - 52 = - 1 - int (51 - J)" using J30 jJ by simp
          then have "(2::real) powi (j - 52) = 2 powi (- 1) / 2 powi (int (51 - J))"
            by (simp only: pow2_diff)
          then show ?thesis by (simp add: power_int_minus)
        qed
        then have "y = of_int (K + 2 ^ (51 - J)) * 2 powi (j - 52)"
          unfolding y_def va a by (simp add: algebra_simps)
        then have "y = of_int (K + 2 ^ (51 - J)) * ulp y" by (simp add: ulp_def j_def)
        then have "rnd y = y" by (rule rnd_grid)
        moreover have "y < of_int n + 1" by (simp add: n_def)
        ultimately show ?thesis by simp
      next
        case False
        then have "y < 2 ^ J + 1 / 2" using va pj by (simp add: y_def)
        moreover have "n = 2 ^ J"
        proof -
          have "real_of_int (2 ^ J) \<le> y" using jl pj by simp
          then have "2 ^ J \<le> n" unfolding n_def by (simp only: le_floor_iff)
          moreover have "n < 2 ^ J + 1"
          proof -
            have "y < real_of_int (2 ^ J + 1)" using \<open>y < 2 ^ J + 1 / 2\<close> by simp
            then show ?thesis unfolding n_def by (simp only: floor_less_iff)
          qed
          ultimately show ?thesis by simp
        qed
        moreover have "rnd (of_int (2 ^ (J + 1) + 1) / 2 ^ 1) = of_int (2 ^ (J + 1) + 1) / 2 ^ 1"
        proof (rule rnd_frac)
          have "(2::int) ^ (J + 1) \<le> 2 ^ 31" using J30 by (intro power_increasing) simp_all
          then show "(2::int) ^ (J + 1) + 1 < 2 ^ 53" by simp
        qed simp_all
        then have "rnd (2 ^ J + 1 / 2) = 2 ^ J + 1 / 2" by (simp add: field_simps)
        ultimately have "rnd y \<le> 2 ^ J + 1 / 2" using y0 by (intro rnd_le) simp_all
        then show ?thesis using \<open>n = 2 ^ J\<close> by simp
      qed
    qed
  qed
  have "\<lfloor>rnd y\<rfloor> = n" using low up by (intro floor_unique) simp_all
  then show ?thesis by (simp add: y_def v_def n_def)
qed


lemma is_double_rounded: "0 \<le> a \<Longrightarrow> is_double (rounded s a)"
  by (simp add: rounded_def rnd_nonneg rnd_idem)

lemma is_double_round_result: "is_double (round_result zs v)"
  by (simp add: round_result_def is_double_rounded)

lemma is_double_fadd: "is_double (fadd x y)"
  by (cases x; cases y) (simp_all add: is_double_round_result)

lemma is_double_fdiv: "is_double (fdiv x y)"
  by (cases x; cases y) (simp_all add: is_double_round_result rnd_zero)

lemma fsqrt_Number:
  assumes "is_double z" and "fsqrt z = Number t b"
  shows "0 \<le> b \<and> rnd b = b \<and> with_sign t b = b"
proof (cases z)
  case (Number s a)
  show ?thesis
  proof (cases "a = 0")
    case True
    then show ?thesis using assms(2) Number by (auto simp: rnd_zero with_sign_def)
  next
    case False
    then have "\<not> s" using assms(2) Number by (auto split: if_splits)
    then have "rounded False (sqrt a) = Number t b" using assms(2) Number False by simp
    then have "\<not> t" "b = rnd (sqrt a)" by (auto simp: rounded_def split: if_splits)
    moreover have "0 \<le> sqrt a" using assms(1) Number by simp
    ultimately show ?thesis by (simp add: rnd_nonneg rnd_idem)
  qed
next
  case (Infinity s)
  then show ?thesis using assms(2) by (simp split: if_splits)
next
  case (NaN s)
  then show ?thesis using assms(2) by simp
qed

lemma half_sum:
  assumes "- (1 / 2) \<le> with_sign s a"
  shows "fadd (Number s a) (double_literal (1 / 2)) = rounded False (with_sign s a + 1 / 2)"
  using assms by (simp add: double_literal_small round_result_def)

text \<open>\<open>nint\<close> of a number that is at least \<open>-0.5\<close>, whatever its size.\<close>

lemma nint_overflow:
  assumes "- (1 / 2) \<le> with_sign s a" and "\<not> rnd (with_sign s a + 1 / 2) < 2 ^ 31"
  shows "(nint (Number s a) :: 'w::len word option) = None"
proof -
  define y where "y = with_sign s a + 1 / 2"
  have y: "0 \<le> y" using assms(1) by (simp add: y_def)
  have big: "2 ^ 31 \<le> rnd y" using assms(2) by (simp add: y_def)
  have "fadd (Number s a) (double_literal (1 / 2)) = round_result False y"
    by (simp add: double_literal_small y_def)
  also have "\<dots> = rounded False y" using y by (simp add: round_result_def)
  finally have f: "fadd (Number s a) (double_literal (1 / 2)) = rounded False y" .
  have "int_cast (rounded False y) = None"
  proof (cases "2 ^ 1024 \<le> rnd y")
    case True
    then show ?thesis by (simp add: rounded_def)
  next
    case False
    have "real_of_int (2 ^ 31) \<le> rnd y" using big by simp
    then have "2 ^ 31 \<le> \<lfloor>rnd y\<rfloor>" by (simp only: le_floor_iff)
    then show ?thesis using False big by (simp add: rounded_def trunc_zero_def)
  qed
  then show ?thesis by (simp add: nint_def f)
qed

lemma nint_nonneg:
  assumes "- (1 / 2) \<le> with_sign s a"
  shows "(nint (Number s a) :: 'w::len word option) =
         (if rnd (with_sign s a + 1 / 2) < 2 ^ 31
          then Some (word_of_int \<lfloor>rnd (with_sign s a + 1 / 2)\<rfloor>) else None)"
  using assms by (simp add: nint_floor_sum nint_overflow)

lemma nint_not_finite: "nint (Infinity s) = None" "nint (NaN s) = None"
  by (simp_all add: nint_def double_literal_small)

text \<open>\<open>nint\<close> of a number below \<open>-0.5\<close>: the sum is negative and the cast takes its ceiling.\<close>

lemma nint_negative:
  assumes "with_sign s a < - (1 / 2)"
  shows "(nint (Number s a) :: 'w::len word option) =
         (if rnd (- (with_sign s a + 1 / 2)) < 2 ^ 31 + 1
          then Some (word_of_int \<lceil>- rnd (- (with_sign s a + 1 / 2))\<rceil>) else None)"
proof -
  define y where "y = with_sign s a + 1 / 2"
  define m where "m = rnd (- y)"
  have y: "y < 0" using assms by (simp add: y_def)
  have m0: "0 \<le> m" unfolding m_def using y by (intro rnd_nonneg) simp
  have "fadd (Number s a) (double_literal (1 / 2)) = round_result False y"
    by (simp add: double_literal_small y_def)
  also have "\<dots> = rounded True (- y)" using y by (simp add: round_result_def)
  finally have f: "fadd (Number s a) (double_literal (1 / 2)) = rounded True (- y)" .
  have t: "trunc_zero (- m) = \<lceil>- m\<rceil>"
    using m0 by (cases "m = 0") (simp_all add: trunc_zero_def)
  have r: "(\<lceil>- m\<rceil> < 2 ^ 31) = True" 
  proof -
    have "\<lceil>- m\<rceil> \<le> 0" using m0 by (simp add: ceiling_le_iff)
    then show ?thesis by simp
  qed
  have l: "(- (2 ^ 31) \<le> \<lceil>- m\<rceil>) = (m < 2 ^ 31 + 1)"
  proof -
    have "(- (2 ^ 31) \<le> \<lceil>- m\<rceil>) = (real_of_int (- (2 ^ 31)) - 1 < - m)"
      by (simp only: le_ceiling_iff) 
    then show ?thesis by auto
  qed
  show ?thesis
  proof (cases "2 ^ 1024 \<le> m")
    case True
    have "(2::real) ^ 31 + 1 \<le> 2 ^ 32" by simp
    also have "(2::real) ^ 32 \<le> 2 ^ 1024" by (rule power_increasing) simp_all
    finally have "\<not> m < 2 ^ 31 + 1" using True by linarith
    then show ?thesis using True by (simp add: nint_def f rounded_def m_def y_def)
  next
    case False
    then have "fadd (Number s a) (double_literal (1 / 2)) = Number True m"
      by (simp add: f rounded_def m_def)
    then show ?thesis
      using t r l by (simp add: nint_def m_def y_def)
  qed
qed

subsection \<open>Rounding to an integer\<close>

lemma sqrt_25: "sqrt 25 = 5"
  by (rule real_sqrt_unique) simp_all

lemma rnd_more:
  "rnd 9 = 9" "rnd 16 = 16" "rnd 25 = 25" "rnd 4 = 4" "rnd (5 / 2) = 5 / 2"
  "rnd (11 / 2) = 11 / 2"
  using rnd_int [of 9] rnd_int [of 16] rnd_int [of 25] rnd_int [of 4] rnd_frac [of 5 1]
    rnd_frac [of 11 1]
  by simp_all

lemma rounded_small: "rnd a = a \<Longrightarrow> a < 2 ^ 31 \<Longrightarrow> rounded s a = Number s a"
  using rounded_Number [of a s] by simp

lemma euc_root_3_4: "euc_root origin point_3_4 = Number False 5"
  by (simp add: euc_root_def origin_def point_3_4_def fsub_def round_result_def
      rounded_small rnd_small rnd_more sqrt_25)

lemma nint_minus_one: "(nint (Number True 1) :: 'w::len word option) = Some 0"
proof -
  have c: "\<lceil>- (1 / 2) :: real\<rceil> = 0" by (simp add: ceiling_eq_iff)
  have "fadd (Number True 1) (double_literal (1 / 2)) = Number True (1 / 2)"
    by (simp add: double_literal_small round_result_def rounded_small rnd_small)
  then show ?thesis by (simp add: nint_def trunc_zero_def c)
qed

lemma rnd_below_one: "rnd (1 - 1 / 2 ^ 54) = 1"
proof -
  define x :: real where "x = 1 - 1 / 2 ^ 54"
  have b: "binade x = - 1"
    unfolding x_def by (rule binade_eq) (simp_all add: power_int_minus)
  have u: "ulp x = 1 / 2 ^ 53"
    by (simp add: ulp_def b power_int_minus)
  have q: "x / ulp x = 18014398509481983 / 2" unfolding u by (simp add: x_def)
  have r: "round_even (18014398509481983 / 2) = 9007199254740992"
    by (simp add: round_even_def)
  have "rnd x = of_int (round_even (x / ulp x)) * ulp x" by (simp only: rnd_def)
  also have "\<dots> = of_int 9007199254740992 * ulp x" by (simp only: q r)
  also have "\<dots> = 1" by (simp add: u)
  finally have "rnd x = 1" .
  then show ?thesis by (simp only: x_def)
qed

lemma pred_half_is_double: "is_double (Number False (1 / 2 - 1 / 2 ^ 54))"
proof -
  have "rnd (of_int (2 ^ 53 - 1) / 2 ^ 54) = of_int (2 ^ 53 - 1) / 2 ^ 54"
    by (rule rnd_frac) simp_all
  moreover have "real_of_int (2 ^ 53 - 1) / 2 ^ 54 = 1 / 2 - 1 / 2 ^ 54" by simp
  ultimately have "rnd (1 / 2 - 1 / 2 ^ 54) = 1 / 2 - 1 / 2 ^ 54" by simp
  moreover have "(1 / 2 - 1 / 2 ^ 54 :: real) < 2 ^ 1024"
    by (rule below_overflow) simp
  ultimately show ?thesis by simp
qed

lemma nint_pred_half: "(nint (Number False (1 / 2 - 1 / 2 ^ 54)) :: 'w::len word option) = Some 1"
proof -
  have e: "(1 / 2 - 1 / 2 ^ 54 :: real) + 1 / 2 = 1 - 1 / 2 ^ 54" by simp
  have "(nint (Number False (1 / 2 - 1 / 2 ^ 54)) :: 'w word option) =
      Some (word_of_int \<lfloor>rnd (with_sign False (1 / 2 - 1 / 2 ^ 54) + 1 / 2)\<rfloor>)"
    by (rule nint_floor_sum) (simp_all only: with_sign_simps e rnd_below_one, simp_all)
  then show ?thesis by (simp only: with_sign_simps e rnd_below_one) simp
qed

text \<open>The distance from the origin to the point \<open>(0.5 - 2 ^ -54, 0)\<close>.\<close>

lemma round_even_near:
  assumes "of_int K - 1 / 2 < z" and "z \<le> of_int K"
  shows "round_even z = K"
proof (cases "z = of_int K")
  case True
  then show ?thesis by (simp add: round_even_of_int)
next
  case False
  then have "z < of_int K" using assms(2) by simp
  moreover have "of_int (K - 1) \<le> z" using assms(1) by simp
  ultimately have f: "\<lfloor>z\<rfloor> = K - 1" by (intro floor_unique) simp_all
  have "1 / 2 < z - of_int \<lfloor>z\<rfloor>" using assms(1) by (simp add: f)
  then show ?thesis by (simp add: round_even_def f)
qed

lemma rnd_pred_half: "rnd (1 / 2 - 1 / 2 ^ 54) = 1 / 2 - 1 / 2 ^ 54"
  using pred_half_is_double by simp

lemma rnd_square_pred_half:
  "rnd ((1 / 2 - 1 / 2 ^ 54) * (1 / 2 - 1 / 2 ^ 54)) = 1 / 4 - 1 / 2 ^ 54"
proof -
  define x :: real where "x = (1 / 2 - 1 / 2 ^ 54) * (1 / 2 - 1 / 2 ^ 54)"
  have b: "binade x = - 3"
    unfolding x_def by (rule binade_eq) (simp_all add: power_int_minus)
  have u: "ulp x = 1 / 2 ^ 55" by (simp add: ulp_def b power_int_minus)
  have z: "x / ulp x = of_int (2 ^ 53 - 2) + 1 / 2 ^ 53" unfolding u by (simp add: x_def)
  have "\<lfloor>x / ulp x\<rfloor> = 2 ^ 53 - 2" unfolding z by (intro floor_unique) simp_all
  then have "round_even (x / ulp x) = 2 ^ 53 - 2"
    unfolding round_even_def by (simp add: z)
  then have "rnd x = of_int (2 ^ 53 - 2) * ulp x" by (simp only: rnd_def)
  also have "\<dots> = 1 / 4 - 1 / 2 ^ 54" by (simp add: u)
  finally show ?thesis by (simp only: x_def)
qed

lemma rnd_quarter_below: "rnd (1 / 4 - 1 / 2 ^ 54) = 1 / 4 - 1 / 2 ^ 54"
proof -
  have "rnd (of_int (2 ^ 53 - 2) / 2 ^ 55) = of_int (2 ^ 53 - 2) / 2 ^ 55"
    by (rule rnd_frac) simp_all
  moreover have "real_of_int (2 ^ 53 - 2) / 2 ^ 55 = 1 / 4 - 1 / 2 ^ 54" by simp
  ultimately show ?thesis by simp
qed

lemma rnd_sqrt_quarter_below: "rnd (sqrt (1 / 4 - 1 / 2 ^ 54)) = 1 / 2 - 1 / 2 ^ 54"
proof -
  define c :: real where "c = 1 / 4 - 1 / 2 ^ 54"
  define y where "y = sqrt c"
  have "c \<le> (1 / 2 - 1 / 2 ^ 54)\<^sup>2" by (simp add: c_def power2_eq_square)
  then have up: "y \<le> 1 / 2 - 1 / 2 ^ 54" unfolding y_def by (intro real_le_lsqrt) simp_all
  have "(1 / 2 - 1 / 2 ^ 54 - 1 / 2 ^ 55 :: real)\<^sup>2 < c" by (simp add: c_def power2_eq_square)
  then have lo: "1 / 2 - 1 / 2 ^ 54 - 1 / 2 ^ 55 < y" unfolding y_def by (rule real_less_rsqrt)
  have b: "binade y = - 2"
    using lo up by (intro binade_eq) (simp_all add: power_int_minus)
  have u: "ulp y = 1 / 2 ^ 54" by (simp add: ulp_def b power_int_minus)
  have z: "y / ulp y = y * 2 ^ 54" by (simp add: u)
  have "of_int (2 ^ 53 - 1) - 1 / 2 < y * 2 ^ 54" using lo by (simp add: field_simps)
  moreover have "y * 2 ^ 54 \<le> of_int (2 ^ 53 - 1)" using up by (simp add: field_simps)
  ultimately have "round_even (y / ulp y) = 2 ^ 53 - 1" unfolding z by (rule round_even_near)
  then have "rnd y = of_int (2 ^ 53 - 1) * ulp y" by (simp only: rnd_def)
  also have "\<dots> = 1 / 2 - 1 / 2 ^ 54" by (simp add: u)
  finally show ?thesis by (simp only: y_def c_def)
qed

lemma euc_root_near_half:
  "euc_root origin point_near_half = Number False (1 / 2 - 1 / 2 ^ 54)"
proof -
  define p :: real where "p = 1 / 2 - 1 / 2 ^ 54"
  define c :: real where "c = 1 / 4 - 1 / 2 ^ 54"
  have p1: "rnd p = p" unfolding p_def by (rule rnd_pred_half)
  have p2: "0 < p" "p < 2 ^ 31" "p \<noteq> 0" by (simp_all add: p_def)
  note p = p1 p2
  have c1: "rnd (p * p) = c" unfolding p_def c_def by (rule rnd_square_pred_half)
  have c2: "rnd c = c" unfolding c_def by (rule rnd_quarter_below)
  have c3: "c < 2 ^ 31" "c \<noteq> 0" "0 < c" by (simp_all add: c_def)
  have c6: "rnd (sqrt c) = p" unfolding p_def c_def by (rule rnd_sqrt_quarter_below)
  note c = c1 c2 c3 c6
  have xd: "fsub (Number False 0) (Number False p) = Number True p"
    using p by (simp add: fsub_def round_result_def rounded_small)
  have yd: "fsub (Number False 0) (Number False 0) = Number False 0"
    by (simp add: fsub_def round_result_def rounded_small rnd_small)
  have xx: "fmul (Number True p) (Number True p) = Number False c"
    using p(2) c(1,3) rounded_Number [of "p * p" False] by (simp add: round_result_def)
  have yy: "fmul (Number False 0) (Number False 0) = Number False 0"
    by (simp add: round_result_def rounded_small rnd_small)
  have s: "fadd (Number False c) (Number False 0) = Number False c"
    using c(2,3,5) by (simp add: round_result_def rounded_small)
  have r: "fsqrt (Number False c) = Number False p"
    using c(4,6) p(3) rounded_Number [of "sqrt c" False] by simp
  have "euc_root origin point_near_half =
      fsqrt (fadd (fmul (fsub (Number False 0) (Number False p))
                        (fsub (Number False 0) (Number False p)))
                  (fmul (fsub (Number False 0) (Number False 0))
                        (fsub (Number False 0) (Number False 0))))"
    by (simp add: euc_root_def origin_def point_near_half_def Let_def p_def)
  also have "\<dots> = Number False p" unfolding xd yd xx yy s r by (rule refl)
  finally show ?thesis by (simp only: p_def)
qed

lemma euc_2D_near_half: "(euc_2D origin point_near_half :: 'w::len word option) = Some 1"
proof -
  have "(euc_2D origin point_near_half :: 'w word option) = nint (euc_root origin point_near_half)"
    by (simp add: euc_2D_def euc_root_def Let_def)
  then show ?thesis by (simp only: euc_root_near_half nint_pred_half)
qed

lemma tenth_bounds: "104857 / 2 ^ 20 \<le> rnd (1 / 10)" "rnd (1 / 10) \<le> 104858 / 2 ^ 20"
proof -
  have a: "rnd (of_int 104857 / 2 ^ 20) = of_int 104857 / 2 ^ 20"
    by (rule rnd_frac) simp_all
  have b: "rnd (of_int 104858 / 2 ^ 20) = of_int 104858 / 2 ^ 20"
    by (rule rnd_frac) simp_all
  have "of_int 104857 / 2 ^ 20 \<le> rnd (1 / 10)"
    by (rule rnd_ge [OF _ _ a]) simp_all
  then show "104857 / 2 ^ 20 \<le> rnd (1 / 10)" by simp
  have "rnd (1 / 10) \<le> of_int 104858 / 2 ^ 20"
    by (rule rnd_le [OF _ _ b]) simp_all
  then show "rnd (1 / 10) \<le> 104858 / 2 ^ 20" by simp
qed

lemma root_tenth_bounds:
  "331587 / 2 ^ 20 \<le> rnd (sqrt (rnd (1 / 10)))" "rnd (sqrt (rnd (1 / 10))) \<le> 331590 / 2 ^ 20"
proof -
  define c where "c = rnd (1 / 10)"
  have c: "104857 / 2 ^ 20 \<le> c" "c \<le> 104858 / 2 ^ 20"
    using tenth_bounds by (simp_all add: c_def)
  have a: "rnd (of_int 331587 / 2 ^ 20) = of_int 331587 / 2 ^ 20"
    by (rule rnd_frac) simp_all
  have b: "rnd (of_int 331590 / 2 ^ 20) = of_int 331590 / 2 ^ 20"
    by (rule rnd_frac) simp_all
  have "(331587 / 2 ^ 20 :: real)\<^sup>2 \<le> 104857 / 2 ^ 20" by (simp add: power2_eq_square)
  then have "(331587 / 2 ^ 20 :: real)\<^sup>2 \<le> c" using c(1) by linarith
  then have l: "331587 / 2 ^ 20 \<le> sqrt c" by (rule real_le_rsqrt)
  have "(104858 / 2 ^ 20 :: real) \<le> (331590 / 2 ^ 20)\<^sup>2" by (simp add: power2_eq_square)
  then have "c \<le> (331590 / 2 ^ 20)\<^sup>2" using c(2) by linarith
  then have u: "sqrt c \<le> 331590 / 2 ^ 20" by (intro real_le_lsqrt) simp_all
  have "of_int 331587 / 2 ^ 20 \<le> rnd (sqrt c)"
    by (rule rnd_ge [OF _ _ a]) (use l in simp_all)
  then show "331587 / 2 ^ 20 \<le> rnd (sqrt (rnd (1 / 10)))" by (simp add: c_def)
  have "(0::real) \<le> 331587 / 2 ^ 20" by simp
  then have "0 \<le> sqrt c" using l by linarith
  then have "rnd (sqrt c) \<le> of_int 331590 / 2 ^ 20"
    by (rule rnd_le [OF _ _ b]) (use u in simp)
  then show "rnd (sqrt (rnd (1 / 10))) \<le> 331590 / 2 ^ 20" by (simp add: c_def)
qed

lemma att_root_unit:
  "att_root \<lparr>node_index = a, node_x = Number False 0, node_y = Number False 0\<rparr>
            \<lparr>node_index = b, node_x = Number False 1, node_y = Number False 0\<rparr> =
   Number False (rnd (sqrt (rnd (1 / 10))))"
proof -
  have t: "rnd (1 / 10) < 2 ^ 31" "rnd (1 / 10) \<noteq> 0" using tenth_bounds by simp_all
  have r: "rnd (sqrt (rnd (1 / 10))) < 2 ^ 31" using root_tenth_bounds(2) by simp
  show ?thesis
    by (simp add: att_root_def fsub_def round_result_def rounded_small rnd_small double_literal_small
        rounded_Number [OF t(1)] rounded_Number [OF r] t(2))
qed

lemma nint_root_tenth:
  "(nint (Number False (rnd (sqrt (rnd (1 / 10))))) :: 'w::len word option) = Some 0"
proof -
  define r where "r = rnd (sqrt (rnd (1 / 10)))"
  have r: "331587 / 2 ^ 20 \<le> r" "r \<le> 331590 / 2 ^ 20"
    using root_tenth_bounds by (simp_all add: r_def)
  have a: "rnd (of_int 1 / 2 ^ 1) = of_int 1 / 2 ^ 1" by (rule rnd_frac) simp_all
  have b: "rnd (of_int 7 / 2 ^ 3) = of_int 7 / 2 ^ 3" by (rule rnd_frac) simp_all
  have "of_int 1 / 2 ^ 1 \<le> rnd (r + 1 / 2)"
    by (rule rnd_ge [OF _ _ a]) (use r in simp_all)
  moreover have "rnd (r + 1 / 2) \<le> of_int 7 / 2 ^ 3"
    by (rule rnd_le [OF _ _ b]) (use r in simp_all)
  ultimately have s: "1 / 2 \<le> rnd (r + 1 / 2)" "rnd (r + 1 / 2) \<le> 7 / 8" by simp_all
  then have f: "\<lfloor>rnd (r + 1 / 2)\<rfloor> = 0" by (simp add: floor_eq_iff)
  have "(nint (Number False r) :: 'w word option) =
      Some (word_of_int \<lfloor>rnd (with_sign False r + 1 / 2)\<rfloor>)"
    by (rule nint_floor_sum) (use r s in simp_all)
  then show ?thesis using f unfolding r_def by simp
qed

lemma double_of_unsigned_zero: "double_of_unsigned 0 = Number False 0"
  by (simp add: double_of_unsigned_def round_result_def rounded_small rnd_small)

lemma att_unit_step:
  "(att \<lparr>node_index = a, node_x = Number False 0, node_y = Number False 0\<rparr>
        \<lparr>node_index = b, node_x = Number False 1, node_y = Number False 0\<rparr>
      :: 'w::len word option) = Some 1"
proof -
  let ?i = "\<lparr>node_index = a, node_x = Number False 0, node_y = Number False 0\<rparr>"
  let ?j = "\<lparr>node_index = b, node_x = Number False 1, node_y = Number False 0\<rparr>"
  have "(att ?i ?j :: 'w word option) =
      (case nint (att_root ?i ?j) of
         None \<Rightarrow> None
       | Some k \<Rightarrow> Some (if fless (double_of_unsigned k) (att_root ?i ?j) then k + 1 else k))"
    unfolding att_def att_root_def Let_def by (rule refl)
  moreover have "0 < rnd (sqrt (rnd (1 / 10)))" using root_tenth_bounds(1) by simp
  ultimately show ?thesis
    by (simp add: att_root_unit nint_root_tenth double_of_unsigned_zero)
qed

subsection \<open>Ranges of \<^verbatim>\<open>double\<close> values\<close>


















subsection \<open>The GEO distance\<close>















lemma att_fill:
  "fill_coords att 2
     [\<lparr>node_index = a, node_x = Number False 0, node_y = Number False 0\<rparr>,
      \<lparr>node_index = b, node_x = Number False 1, node_y = Number False 0\<rparr>]
     (new_matrix 2) = Some [[0, 1], [1, 0 :: 'w::len word]]"
  by (simp add: fill_coords_def for_loop_numeral pair_body_def new_matrix_small mset_def
        att_unit_step)

lemma double_of_unsigned_one: "double_of_unsigned 1 = Number False 1"
  by (simp add: double_of_unsigned_def round_result_def rounded_small rnd_small)

subsection \<open>The constructor on the ATT example\<close>

lemma att_instance_header:
  "regex_search dim_rgx att_instance = Some ''2''"
  "regex_search ewt_rgx att_instance = Some ''ATT''"
  "regex_search ncs_rgx att_instance = Some ''1 0 0\<newline>2 1 0\<newline>''"
  by code_simp+

lemma att_instance_nodes:
  "read_nodes read_integer_node 2 (istringstream ''1 0 0\<newline>2 1 0\<newline>'') =
   [\<lparr>node_index = 1, node_x = Number False 0, node_y = Number False 0\<rparr>,
    \<lparr>node_index = 2, node_x = Number False 1, node_y = Number False 0\<rparr>]"
  by (simp add: read_nodes_def for_loop_numeral read_integer_node_def eval_stream
        double_of_unsigned_zero double_of_unsigned_one)

lemma att_instance_load:
  "new_tsplib_loader lm read_integer_node cv0 att_instance = Inr att_loader"
proof -
  have "ewt_of ''ATT'' = ATT"
    by code_simp
  then show ?thesis
    by (simp add: new_tsplib_loader_def att_instance_header stoul_small dist_f_def
          att_instance_nodes att_fill att_loader_def)
qed

section \<open>The claims\<close>

text \<open>
  C1. The claim is that the loaded matrix is symmetric for every parsed instance, of
  every edge-weight type and every EXPLICIT format, FULL\_MATRIX included. The
  FULL\_MATRIX branch stores each number where it stands and mirrors nothing, so there
  the claim fails. What holds: for every constructed loader whose format is not
  FULL\_MATRIX (the three triangular formats, and the coordinate types, which have no
  format), \<open>m[i][j] = m[j][i]\<close> for all \<open>i, j < N\<close>.
\<close>

theorem symmetric_unless_full_matrix:
  assumes "new_tsplib_loader lm rd cv0 input = Inr L" and "ewf L \<noteq> FULL_MATRIX"
    and "i < dimension L" and "j < dimension L"
  shows "matrix L ! i ! j = matrix L ! j ! i"
proof -
  have "symmetric (dimension L) (matrix L)"
    using new_tsplib_loader_Inr [OF assms(1)]
  proof (elim disjE exE conjE)
    assume "fill_explicit (ewf L) (dimension L) cv0 (istringstream (data_section L))
              (new_matrix (dimension L)) = Inr (matrix L)"
    then show ?thesis
      using square_new_matrix symmetric_new_matrix assms(2) by (rule fill_explicit_symmetric)
  next
    fix f
    assume "fill_coords f (dimension L) (nodes L) (new_matrix (dimension L)) = Some (matrix L)"
    then show ?thesis
      using fill_coords_inv [OF square_new_matrix symmetric_new_matrix, of "dimension L" f "nodes L"]
      by (simp add: coords_inv_def)
  qed
  then show ?thesis
    using assms(3,4) by (simp add: symmetric_def)
qed

theorem symmetric_unless_full_matrix_witness:
  "new_tsplib_loader exact_cmath no_node 0 upper_row_instance = Inr upper_row_loader \<and>
   ewf upper_row_loader \<noteq> FULL_MATRIX \<and>
   0 < dimension upper_row_loader \<and> 1 < dimension upper_row_loader \<and>
   matrix upper_row_loader ! 0 ! 1 = matrix upper_row_loader ! 1 ! 0"
proof -
  have l: "new_tsplib_loader exact_cmath no_node 0 upper_row_instance = Inr upper_row_loader"
    by (rule upper_row_load_32)
  have f: "ewf upper_row_loader \<noteq> FULL_MATRIX"
    and d: "0 < dimension upper_row_loader" "1 < dimension upper_row_loader"
    by (simp_all add: upper_row_loader_def)
  show ?thesis
    using l f d symmetric_unless_full_matrix [OF l f d] by simp
qed

text \<open>
  C1, counterexample: DIMENSION 2, FULL\_MATRIX, data \<open>0 1 / 2 0\<close> is parsed, and the
  loaded matrix has \<open>m[0][1] = 1\<close> and \<open>m[1][0] = 2\<close>.
\<close>

theorem full_matrix_not_symmetric:
  "new_tsplib_loader exact_cmath no_node 0 full_matrix_asymmetric = Inr full_matrix_asymmetric_loader \<and>
   ewf full_matrix_asymmetric_loader = FULL_MATRIX \<and>
   0 < dimension full_matrix_asymmetric_loader \<and> 1 < dimension full_matrix_asymmetric_loader \<and>
   matrix full_matrix_asymmetric_loader ! 0 ! 1 \<noteq> matrix full_matrix_asymmetric_loader ! 1 ! 0"
  by (simp add: full_matrix_asymmetric_load) (simp add: full_matrix_asymmetric_loader_def)

text \<open>
  C2. The claim is that an EXPLICIT instance whose EDGE\_WEIGHT\_SECTION holds fewer
  numbers than its format implies, or holds non-numeric content, makes the loader fail.
  The checks of the count are commented out in the source, and \<open>ews_rgx\<close> captures the
  longest run of numbers after the keyword, so other content only ends the section.
  What holds: once DIMENSION, EDGE\_WEIGHT\_TYPE \<open>EXPLICIT\<close> and a supported
  EDGE\_WEIGHT\_FORMAT are read, the loader fails on the data section exactly when
  \<open>ews_rgx\<close> has no match (no number followed by white space after the keyword); with a
  match it completes and returns an \<open>N \<times> N\<close> matrix, however many numbers there are.
\<close>

theorem explicit_section_count_unchecked:
  assumes "regex_search dim_rgx input = Some dim_str" and "stoul dim_str = Inr n"
    and "regex_search ewt_rgx input = Some type" and "ewt_of type = EXPLICIT"
    and "regex_search ewf_rgx input = Some format" and "ewf_of format \<noteq> EWF_NONE"
  shows "case regex_search ews_rgx input of
           None \<Rightarrow> new_tsplib_loader lm rd cv0 input = Inl Incorrect_EDGE_WEIGHT_SECTION
         | Some ds \<Rightarrow>
             \<exists>m. square n m \<and>
               new_tsplib_loader lm rd cv0 input =
                 Inr \<lparr>dimension = n, ewt = EXPLICIT, ewf = ewf_of format, data_section = ds,
                      matrix = m, nodes = []\<rparr>"
proof (cases "regex_search ews_rgx input")
  case None
  then show ?thesis
    using assms by (simp add: new_tsplib_loader_def)
next
  case (Some ds)
  obtain m where "square n m"
    and "fill_explicit (ewf_of format) n cv0 (istringstream ds) (new_matrix n) = Inr m"
    using fill_explicit_returns [OF assms(6) square_new_matrix] by blast
  then show ?thesis
    using assms Some by (auto simp: new_tsplib_loader_def)
qed

theorem explicit_section_count_unchecked_witness:
  "regex_search dim_rgx full_matrix_short = Some ''2'' \<and> stoul ''2'' = Inr 2 \<and>
   regex_search ewt_rgx full_matrix_short = Some ''EXPLICIT'' \<and> ewt_of ''EXPLICIT'' = EXPLICIT \<and>
   regex_search ewf_rgx full_matrix_short = Some ''FULL_MATRIX'' \<and>
   ewf_of ''FULL_MATRIX'' \<noteq> EWF_NONE \<and>
   regex_search ews_rgx full_matrix_short = Some ''0 1\<newline>2\<newline>'' \<and>
   (\<exists>m. square 2 m \<and>
      new_tsplib_loader exact_cmath no_node (0 :: 32 word) full_matrix_short =
        Inr \<lparr>dimension = 2, ewt = EXPLICIT, ewf = FULL_MATRIX, data_section = ''0 1\<newline>2\<newline>'',
             matrix = m, nodes = []\<rparr>)"
proof -
  have f: "ewf_of ''FULL_MATRIX'' \<noteq> EWF_NONE"
    by (simp add: explicit_words)
  show ?thesis
    using explicit_section_count_unchecked
      [OF full_matrix_short_header(1) stoul_small(2) full_matrix_short_header(2)
          explicit_words(1) full_matrix_short_header(3) f, of exact_cmath no_node "0 :: 32 word"]
    by (simp add: full_matrix_short_header stoul_small explicit_words)
qed

text \<open>
  C2, counterexample: DIMENSION 2 with FULL\_MATRIX needs four numbers. The data
  \<open>0 1 / 2\<close> (three numbers) and the data \<open>0 1 / x 0\<close> (a letter in the section) are
  both loaded.
\<close>

theorem short_section_accepted:
  "new_tsplib_loader exact_cmath no_node 0 full_matrix_short = Inr full_matrix_short_loader \<and>
   matrix full_matrix_short_loader = [[0, 1], [2, 0]] \<and>
   new_tsplib_loader exact_cmath no_node 0 full_matrix_letters = Inr full_matrix_letters_loader \<and>
   matrix full_matrix_letters_loader = [[0, 1], [0, 0]]"
  by (simp add: full_matrix_short_load full_matrix_letters_load)
     (simp add: full_matrix_short_loader_def full_matrix_letters_loader_def)

text \<open>
  C3. The claim is that \<open>nint x = floor (x + 0.5)\<close> for every input \<open>x\<close>. The source
  computes \<^verbatim>\<open>(int) (x + 0.5)\<close>: the sum is rounded to a \<^verbatim>\<open>double\<close> and the cast truncates
  towards zero. The two differ where the sum is negative and not an integer, and at the
  greatest \<^verbatim>\<open>double\<close> below \<open>0.5\<close>, where the sum is rounded to \<open>1.0\<close>. What holds: for
  every \<open>x \<ge> -0.5\<close> the sum computed is \<open>rnd (x + 0.5)\<close>; when it is below \<open>2 ^ 31\<close>,
  \<open>nint x\<close> is its floor converted to the distance type (the number itself when that type
  has at least 31 bits), otherwise the cast is undefined; and when \<open>x\<close> is a \<^verbatim>\<open>double\<close>
  other than \<open>0.5 - 2 ^ -54\<close>, that floor is \<open>floor (x + 0.5)\<close>. For \<open>x < -0.5\<close> the sum is
  negative and \<open>nint x\<close> is its ceiling; for an infinity or a NaN the cast is undefined.
  The values that \<open>euc_2D\<close> and \<open>att\<close> pass to \<open>nint\<close> are square roots, never negative,
  so the rule for \<open>x \<ge> -0.5\<close> gives both functions.
\<close>

theorem nint_round_half_up:
  fixes s :: bool and a :: real and i j :: Node
  shows
    "(- (1 / 2) \<le> with_sign s a \<longrightarrow>
        fadd (Number s a) (double_literal (1 / 2)) = rounded False (with_sign s a + 1 / 2) \<and>
        (nint (Number s a) :: 'w::len word option) =
          (if rnd (with_sign s a + 1 / 2) < 2 ^ 31
           then Some (word_of_int \<lfloor>rnd (with_sign s a + 1 / 2)\<rfloor>) else None) \<and>
        (rnd (with_sign s a + 1 / 2) < 2 ^ 31 \<longrightarrow> 31 \<le> LENGTH('w) \<longrightarrow>
           map_option uint (nint (Number s a) :: 'w word option) =
             Some \<lfloor>rnd (with_sign s a + 1 / 2)\<rfloor>) \<and>
        (is_double (Number s a) \<longrightarrow> with_sign s a \<noteq> 1 / 2 - 1 / 2 ^ 54 \<longrightarrow>
           rnd (with_sign s a + 1 / 2) < 2 ^ 31 \<longrightarrow>
           \<lfloor>rnd (with_sign s a + 1 / 2)\<rfloor> = \<lfloor>with_sign s a + 1 / 2\<rfloor>)) \<and>
     (with_sign s a < - (1 / 2) \<longrightarrow>
        (nint (Number s a) :: 'w word option) =
          (if rnd (- (with_sign s a + 1 / 2)) < 2 ^ 31 + 1
           then Some (word_of_int \<lceil>- rnd (- (with_sign s a + 1 / 2))\<rceil>) else None)) \<and>
     (nint (Infinity s) :: 'w word option) = None \<and>
     (nint (NaN s) :: 'w word option) = None \<and>
     (euc_2D i j :: 'w word option) =
       (case euc_root i j of
          Number t b \<Rightarrow>
            if rnd (b + 1 / 2) < 2 ^ 31 then Some (word_of_int \<lfloor>rnd (b + 1 / 2)\<rfloor>) else None
        | _ \<Rightarrow> None) \<and>
     (att i j :: 'w word option) =
       (case att_root i j of
          Number t b \<Rightarrow>
            if rnd (b + 1 / 2) < 2 ^ 31
            then Some (let k = word_of_int \<lfloor>rnd (b + 1 / 2)\<rfloor>
                       in if fless (double_of_unsigned k) (att_root i j) then k + 1 else k)
            else None
        | _ \<Rightarrow> None) \<and>
     (\<forall>t b. (euc_root i j = Number t b \<or> att_root i j = Number t b) \<longrightarrow>
        b \<noteq> 1 / 2 - 1 / 2 ^ 54 \<longrightarrow> rnd (b + 1 / 2) < 2 ^ 31 \<longrightarrow>
        \<lfloor>rnd (b + 1 / 2)\<rfloor> = \<lfloor>b + 1 / 2\<rfloor>)"
proof (intro conjI impI allI)
  assume lo: "- (1 / 2) \<le> with_sign s a"
  then show "fadd (Number s a) (double_literal (1 / 2)) = rounded False (with_sign s a + 1 / 2)"
    by (rule half_sum)
  from lo show n: "(nint (Number s a) :: 'w word option) =
          (if rnd (with_sign s a + 1 / 2) < 2 ^ 31
           then Some (word_of_int \<lfloor>rnd (with_sign s a + 1 / 2)\<rfloor>) else None)"
    by (rule nint_nonneg)
  {
    assume hi: "rnd (with_sign s a + 1 / 2) < 2 ^ 31" and w: "31 \<le> LENGTH('w)"
    define y where "y = rnd (with_sign s a + 1 / 2)"
    have "0 \<le> y" unfolding y_def using lo by (intro rnd_nonneg) simp
    then have f0: "0 \<le> \<lfloor>y\<rfloor>" by simp
    have f1: "\<lfloor>y\<rfloor> < 2 ^ 31" using hi by (simp add: y_def floor_less_iff)
    have "(2::int) ^ 31 \<le> 2 ^ LENGTH('w)" using w by (intro power_increasing) simp_all
    then have "\<lfloor>y\<rfloor> < 2 ^ LENGTH('w)" using f1 by linarith
    then have "uint (word_of_int \<lfloor>y\<rfloor> :: 'w word) = \<lfloor>y\<rfloor>"
      using f0 by (simp add: uint_word_of_int)
    then show "map_option uint (nint (Number s a) :: 'w word option) =
             Some \<lfloor>rnd (with_sign s a + 1 / 2)\<rfloor>"
      using hi by (simp add: n y_def)
  }
  {
    assume "is_double (Number s a)" "with_sign s a \<noteq> 1 / 2 - 1 / 2 ^ 54"
      "rnd (with_sign s a + 1 / 2) < 2 ^ 31"
    then show "\<lfloor>rnd (with_sign s a + 1 / 2)\<rfloor> = \<lfloor>with_sign s a + 1 / 2\<rfloor>"
      using lo by (intro floor_rnd_half) simp_all
  }
next
  assume "with_sign s a < - (1 / 2)"
  then show "(nint (Number s a) :: 'w word option) =
          (if rnd (- (with_sign s a + 1 / 2)) < 2 ^ 31 + 1
           then Some (word_of_int \<lceil>- rnd (- (with_sign s a + 1 / 2))\<rceil>) else None)"
    by (rule nint_negative)
next
  show "(nint (Infinity s) :: 'w word option) = None"
    by (rule nint_not_finite)
next
  show "(nint (NaN s) :: 'w word option) = None"
    by (rule nint_not_finite)
next
  show "(euc_2D i j :: 'w word option) =
       (case euc_root i j of
          Number t b \<Rightarrow>
            if rnd (b + 1 / 2) < 2 ^ 31 then Some (word_of_int \<lfloor>rnd (b + 1 / 2)\<rfloor>) else None
        | _ \<Rightarrow> None)"
  proof (cases "euc_root i j")
    case (Number t b)
    then have "0 \<le> b \<and> rnd b = b \<and> with_sign t b = b"
      unfolding euc_root_def Let_def by (intro fsqrt_Number [OF is_double_fadd])
    then have "(nint (Number t b) :: 'w word option) =
        (if rnd (b + 1 / 2) < 2 ^ 31 then Some (word_of_int \<lfloor>rnd (b + 1 / 2)\<rfloor>) else None)"
      using nint_nonneg [of t b, where ?'w = 'w] by simp
    moreover have "(euc_2D i j :: 'w word option) = nint (euc_root i j)"
      by (simp add: euc_2D_def euc_root_def Let_def)
    ultimately show ?thesis using Number by simp
  next
    case (Infinity t)
    moreover have "(euc_2D i j :: 'w word option) = nint (euc_root i j)"
      by (simp add: euc_2D_def euc_root_def Let_def)
    ultimately show ?thesis by (simp add: nint_not_finite)
  next
    case (NaN t)
    moreover have "(euc_2D i j :: 'w word option) = nint (euc_root i j)"
      by (simp add: euc_2D_def euc_root_def Let_def)
    ultimately show ?thesis by (simp add: nint_not_finite)
  qed
next
  have a: "(att i j :: 'w word option) =
      (case nint (att_root i j) of
         None \<Rightarrow> None
       | Some k \<Rightarrow> Some (if fless (double_of_unsigned k) (att_root i j) then k + 1 else k))"
    unfolding att_def att_root_def Let_def by (rule refl)
  show "(att i j :: 'w word option) =
       (case att_root i j of
          Number t b \<Rightarrow>
            if rnd (b + 1 / 2) < 2 ^ 31
            then Some (let k = word_of_int \<lfloor>rnd (b + 1 / 2)\<rfloor>
                       in if fless (double_of_unsigned k) (att_root i j) then k + 1 else k)
            else None
        | _ \<Rightarrow> None)"
  proof (cases "att_root i j")
    case (Number t b)
    then have "0 \<le> b \<and> rnd b = b \<and> with_sign t b = b"
      unfolding att_root_def Let_def by (intro fsqrt_Number [OF is_double_fdiv])
    then have "(nint (Number t b) :: 'w word option) =
        (if rnd (b + 1 / 2) < 2 ^ 31 then Some (word_of_int \<lfloor>rnd (b + 1 / 2)\<rfloor>) else None)"
      using nint_nonneg [of t b, where ?'w = 'w] by simp
    then show ?thesis unfolding a Number by (simp add: Let_def)
  next
    case (Infinity t)
    then show ?thesis unfolding a by (simp add: nint_not_finite)
  next
    case (NaN t)
    then show ?thesis unfolding a by (simp add: nint_not_finite)
  qed
next
  fix t b
  assume r: "euc_root i j = Number t b \<or> att_root i j = Number t b"
    and ne: "b \<noteq> 1 / 2 - 1 / 2 ^ 54" and hi: "rnd (b + 1 / 2) < 2 ^ 31"
  have "0 \<le> b \<and> rnd b = b \<and> with_sign t b = b"
    using r
  proof
    assume "euc_root i j = Number t b"
    then show ?thesis unfolding euc_root_def Let_def by (intro fsqrt_Number [OF is_double_fadd])
  next
    assume "att_root i j = Number t b"
    then show ?thesis unfolding att_root_def Let_def by (intro fsqrt_Number [OF is_double_fdiv])
  qed
  then show "\<lfloor>rnd (b + 1 / 2)\<rfloor> = \<lfloor>b + 1 / 2\<rfloor>"
    using floor_rnd_half [of b False] ne hi by simp
qed

theorem nint_round_half_up_witness:
  "- (1 / 2) \<le> with_sign False (5 / 2) \<and> is_double (Number False (5 / 2)) \<and>
   with_sign False (5 / 2) \<noteq> 1 / 2 - 1 / 2 ^ 54 \<and>
   rnd (with_sign False (5 / 2) + 1 / 2) < 2 ^ 31 \<and> 31 \<le> LENGTH(32) \<and>
   (nint (Number False (5 / 2)) :: 32 word option) = Some 3 \<and>
   map_option uint (nint (Number False (5 / 2)) :: 32 word option) = Some 3 \<and>
   \<lfloor>with_sign False (5 / 2) + 1 / 2\<rfloor> = 3 \<and>
   euc_root origin point_3_4 = Number False 5 \<and>
   (5 :: real) \<noteq> 1 / 2 - 1 / 2 ^ 54 \<and> rnd (5 + 1 / 2) < 2 ^ 31 \<and>
   (euc_2D origin point_3_4 :: 32 word option) = Some 5 \<and>
   \<lfloor>rnd (5 + 1 / 2)\<rfloor> = \<lfloor>(5 :: real) + 1 / 2\<rfloor> \<and> \<lfloor>(5 :: real) + 1 / 2\<rfloor> = 5"
proof -
  have r3: "rnd 3 = 3" by (simp add: rnd_small)
  have a: "- (1 / 2) \<le> with_sign False (5 / 2)" "is_double (Number False (5 / 2))"
    "with_sign False (5 / 2) \<noteq> 1 / 2 - 1 / 2 ^ 54"
    "rnd (with_sign False (5 / 2) + 1 / 2) < 2 ^ 31"
    using below_overflow [of "5 / 2"] by (simp_all add: rnd_more r3)
  have f: "\<lfloor>(11 / 2 :: real)\<rfloor> = 5" by simp
  show ?thesis
    using nint_round_half_up [where ?'w = 32 and s = False and a = "5 / 2" and i = origin
        and j = point_3_4] a
    by (simp add: r3 euc_root_3_4 rnd_more f)
qed

text \<open>
  C3, counterexample: \<open>nint (-1.0) = 0\<close>, while \<open>floor (-1 + 0.5) = -1\<close>; and
  \<open>nint (0.5 - 2 ^ -54) = 1\<close>, while \<open>floor (0.5 - 2 ^ -54 + 0.5) = 0\<close>. The second value is
  passed to \<open>nint\<close> by \<open>euc_2D\<close> for the points \<open>(0, 0)\<close> and \<open>(0.5 - 2 ^ -54, 0)\<close>, whose
  distance is 1.
\<close>

theorem nint_truncates_towards_zero:
  "is_double (Number True 1) \<and> (nint (Number True 1) :: 32 word option) = Some 0 \<and>
   \<lfloor>with_sign True 1 + 1 / 2\<rfloor> = - 1 \<and>
   (nint (Number True 1) :: 32 word option) \<noteq> Some (word_of_int \<lfloor>with_sign True 1 + 1 / 2\<rfloor>) \<and>
   is_double (Number False (1 / 2 - 1 / 2 ^ 54)) \<and>
   (nint (Number False (1 / 2 - 1 / 2 ^ 54)) :: 32 word option) = Some 1 \<and>
   \<lfloor>with_sign False (1 / 2 - 1 / 2 ^ 54) + 1 / 2\<rfloor> = 0 \<and>
   euc_root origin point_near_half = Number False (1 / 2 - 1 / 2 ^ 54) \<and>
   (euc_2D origin point_near_half :: 32 word option) = Some 1"
proof -
  have c1: "is_double (Number True 1)"
    using below_overflow [of 1] by (simp add: rnd_small)
  have c3: "\<lfloor>with_sign True 1 + 1 / 2\<rfloor> = - 1" by (simp add: floor_eq_iff)
  have c4: "(nint (Number True 1) :: 32 word option) \<noteq>
      Some (word_of_int \<lfloor>with_sign True 1 + 1 / 2\<rfloor>)"
    unfolding nint_minus_one c3 by simp
  have c7: "\<lfloor>with_sign False (1 / 2 - 1 / 2 ^ 54) + 1 / 2\<rfloor> = 0" by (simp add: floor_eq_iff)
  show ?thesis
    by (intro conjI c1 nint_minus_one c3 c4 pred_half_is_double nint_pred_half c7
        euc_root_near_half euc_2D_near_half)
qed

text \<open>
  C4. For every constructed loader, of every edge-weight type and format, every diagonal
  entry of the matrix is zero: \<open>m[i][i] = 0\<close> for all \<open>i < N\<close>, whatever the data
  section supplies on the diagonal.
\<close>

theorem diagonal_is_zero:
  assumes "new_tsplib_loader lm rd cv0 input = Inr L" and "i < dimension L"
  shows "matrix L ! i ! i = 0"
  using new_tsplib_loader_Inr [OF assms(1)]
proof (elim disjE exE conjE)
  assume "fill_explicit (ewf L) (dimension L) cv0 (istringstream (data_section L))
            (new_matrix (dimension L)) = Inr (matrix L)"
  then show ?thesis
    using square_new_matrix assms(2) by (rule fill_explicit_diagonal)
next
  fix f
  assume "fill_coords f (dimension L) (nodes L) (new_matrix (dimension L)) = Some (matrix L)"
  then show ?thesis
    using fill_coords_inv [OF square_new_matrix symmetric_new_matrix, of "dimension L" f "nodes L"]
      assms(2)
    by (simp add: coords_inv_def)
qed

text \<open>The witness is a FULL\_MATRIX input whose data has 7 and 9 on the diagonal.\<close>

theorem diagonal_is_zero_witness:
  "new_tsplib_loader exact_cmath no_node 0 full_matrix_diagonal = Inr full_matrix_diagonal_loader \<and>
   0 < dimension full_matrix_diagonal_loader \<and> 1 < dimension full_matrix_diagonal_loader \<and>
   matrix full_matrix_diagonal_loader ! 0 ! 0 = 0 \<and>
   matrix full_matrix_diagonal_loader ! 1 ! 1 = 0"
proof -
  have l: "new_tsplib_loader exact_cmath no_node 0 full_matrix_diagonal = Inr full_matrix_diagonal_loader"
    by (rule full_matrix_diagonal_load)
  have d: "0 < dimension full_matrix_diagonal_loader" "1 < dimension full_matrix_diagonal_loader"
    by (simp_all add: full_matrix_diagonal_loader_def)
  show ?thesis
    using l d diagonal_is_zero [OF l d(1)] diagonal_is_zero [OF l d(2)] by simp
qed

text \<open>
  C5. For an ATT instance with the two points \<open>(0,0)\<close> and \<open>(1,0)\<close> the matrix entry
  \<open>m[0][1]\<close> is 1: \<open>r\<close>, the square root of \<open>1/10\<close> as the \<^verbatim>\<open>double\<close> operations give it,
  lies between 0.3162 and 0.3163, \<open>t = nint r = 0\<close>, and since \<open>t < r\<close> the result is
  \<open>t + 1 = 1\<close>. The last two conjuncts load the text of such an instance.
\<close>

theorem att_two_points:
  "att_root \<lparr>node_index = a, node_x = Number False 0, node_y = Number False 0\<rparr>
            \<lparr>node_index = b, node_x = Number False 1, node_y = Number False 0\<rparr> =
     Number False (rnd (sqrt (rnd (1 / 10)))) \<and>
   3162 / 10000 \<le> rnd (sqrt (rnd (1 / 10))) \<and> rnd (sqrt (rnd (1 / 10))) \<le> 3163 / 10000 \<and>
   (nint (Number False (rnd (sqrt (rnd (1 / 10))))) :: 'w::len word option) = Some 0 \<and>
   fless (double_of_unsigned (0 :: 'w word)) (Number False (rnd (sqrt (rnd (1 / 10))))) \<and>
   (att \<lparr>node_index = a, node_x = Number False 0, node_y = Number False 0\<rparr>
        \<lparr>node_index = b, node_x = Number False 1, node_y = Number False 0\<rparr>
      :: 'w word option) = Some 1 \<and>
   fill_coords att 2
     [\<lparr>node_index = a, node_x = Number False 0, node_y = Number False 0\<rparr>,
      \<lparr>node_index = b, node_x = Number False 1, node_y = Number False 0\<rparr>]
     (new_matrix 2) = Some [[0, 1], [1, 0 :: 'w word]] \<and>
   new_tsplib_loader lm read_integer_node cv0 att_instance = Inr att_loader \<and>
   matrix att_loader ! 0 ! 1 = 1"
proof -
  have lo: "3162 / 10000 \<le> rnd (sqrt (rnd (1 / 10)))"
    by (rule order_trans [OF _ root_tenth_bounds(1)]) simp
  have hi: "rnd (sqrt (rnd (1 / 10))) \<le> 3163 / 10000"
    by (rule order_trans [OF root_tenth_bounds(2)]) simp
  have "0 < rnd (sqrt (rnd (1 / 10)))"
    using lo by simp
  then have l: "fless (double_of_unsigned (0 :: 'w word)) (Number False (rnd (sqrt (rnd (1 / 10)))))"
    by (simp add: double_of_unsigned_zero)
  have m: "matrix att_loader ! 0 ! 1 = 1"
    by (simp add: att_loader_def)
  show ?thesis
    by (intro conjI att_root_unit lo hi nint_root_tenth l att_unit_step att_fill
        att_instance_load m)
qed



text \<open>
  C7. Parsing the EXPLICIT UPPER\_ROW instance with DIMENSION 3 and data section
  \<open>10 15 20\<close> gives the matrix with rows \<open>[0,10,15]\<close>, \<open>[10,0,20]\<close>, \<open>[15,20,0]\<close>, for
  every distance type wide enough to hold 20. In general, for an UPPER\_ROW instance of
  dimension \<open>N\<close> whose data section holds at least \<open>N (N - 1) / 2\<close> numbers, the \<open>k\<close>-th
  number is stored in \<open>m[i][j]\<close> and in \<open>m[j][i]\<close>, where \<open>(i, j)\<close> is the \<open>k\<close>-th pair with
  \<open>0 \<le> i < j < N\<close> in row order.
\<close>

theorem upper_row_example:
  fixes cv0 :: "'w::len word"
  shows
    "(20 < (2::nat) ^ LENGTH('w) \<longrightarrow>
        new_tsplib_loader lm rd cv0 upper_row_instance =
          Inr \<lparr>dimension = 3, ewt = EXPLICIT, ewf = UPPER_ROW,
               data_section = ''10 15 20\<newline>'',
               matrix = [[0, 10, 15], [10, 0, 20], [15, 20, 0]], nodes = []\<rparr>) \<and>
     (regex_search dim_rgx input = Some dim_str \<and> stoul dim_str = Inr n \<and>
      regex_search ewt_rgx input = Some type \<and> ewt_of type = EXPLICIT \<and>
      regex_search ewf_rgx input = Some format \<and> ewf_of format = UPPER_ROW \<and>
      regex_search ews_rgx input = Some (numbers_text toks) \<and>
      list_all (number_token (2 ^ LENGTH('w))) toks \<and>
      n * (n - 1) div 2 \<le> length toks \<and> k < n * (n - 1) div 2 \<longrightarrow>
        length (upper_pairs n) = n * (n - 1) div 2 \<and>
        (\<exists>L. new_tsplib_loader lm rd cv0 input = Inr L \<and> dimension L = n \<and>
             fst (upper_pairs n ! k) < snd (upper_pairs n ! k) \<and> snd (upper_pairs n ! k) < n \<and>
             matrix L ! fst (upper_pairs n ! k) ! snd (upper_pairs n ! k) = token_value (toks ! k) \<and>
             matrix L ! snd (upper_pairs n ! k) ! fst (upper_pairs n ! k) = token_value (toks ! k)))"
proof (intro conjI impI)
  assume "20 < (2::nat) ^ LENGTH('w)"
  then show "new_tsplib_loader lm rd cv0 upper_row_instance =
          Inr \<lparr>dimension = 3, ewt = EXPLICIT, ewf = UPPER_ROW,
               data_section = ''10 15 20\<newline>'',
               matrix = [[0, 10, 15], [10, 0, 20], [15, 20, 0]], nodes = []\<rparr>"
    by (rule upper_row_load)
next
  show "length (upper_pairs n) = n * (n - 1) div 2"
    by (rule length_upper_pairs)
next
  assume a: "regex_search dim_rgx input = Some dim_str \<and> stoul dim_str = Inr n \<and>
      regex_search ewt_rgx input = Some type \<and> ewt_of type = EXPLICIT \<and>
      regex_search ewf_rgx input = Some format \<and> ewf_of format = UPPER_ROW \<and>
      regex_search ews_rgx input = Some (numbers_text toks) \<and>
      list_all (number_token (2 ^ LENGTH('w))) toks \<and>
      n * (n - 1) div 2 \<le> length toks \<and> k < n * (n - 1) div 2"
  show "\<exists>L. new_tsplib_loader lm rd cv0 input = Inr L \<and> dimension L = n \<and>
             fst (upper_pairs n ! k) < snd (upper_pairs n ! k) \<and> snd (upper_pairs n ! k) < n \<and>
             matrix L ! fst (upper_pairs n ! k) ! snd (upper_pairs n ! k) = token_value (toks ! k) \<and>
             matrix L ! snd (upper_pairs n ! k) ! fst (upper_pairs n ! k) = token_value (toks ! k)"
    by (rule upper_row_layout [where dim_str = dim_str and type = type and format = format])
       (use a in simp_all)
qed

theorem upper_row_example_witness:
  "20 < (2::nat) ^ LENGTH(32) \<and>
   new_tsplib_loader exact_cmath no_node (0 :: 32 word) upper_row_instance =
     Inr \<lparr>dimension = 3, ewt = EXPLICIT, ewf = UPPER_ROW,
          data_section = ''10 15 20\<newline>'',
          matrix = [[0, 10, 15], [10, 0, 20], [15, 20, 0]], nodes = []\<rparr> \<and>
   regex_search ews_rgx upper_row_instance = Some (numbers_text upper_row_tokens) \<and>
   list_all (number_token (2 ^ LENGTH(32))) upper_row_tokens \<and>
   3 * (3 - 1) div 2 \<le> length upper_row_tokens \<and> 2 < 3 * (3 - 1) div (2 :: nat) \<and>
   upper_pairs 3 ! 2 = (1, 2) \<and> (token_value (upper_row_tokens ! 2) :: 32 word) = 20 \<and>
   (\<exists>L. new_tsplib_loader exact_cmath no_node (0 :: 32 word) upper_row_instance = Inr L \<and>
        dimension L = 3 \<and> matrix L ! 1 ! 2 = 20 \<and> matrix L ! 2 ! 1 = 20)"
proof -
  have h: "20 < (2::nat) ^ LENGTH(32)"
    by simp
  have t: "regex_search ews_rgx upper_row_instance = Some (numbers_text upper_row_tokens)"
    by (simp add: upper_row_header upper_row_tokens_text)
  have c: "3 * (3 - 1) div 2 \<le> length upper_row_tokens" "2 < 3 * (3 - 1) div (2 :: nat)"
    by (simp_all add: upper_row_tokens_def)
  have p: "upper_pairs 3 ! 2 = (1, 2)"
    by (simp add: upper_pairs_3)
  have v: "(token_value (upper_row_tokens ! 2) :: 32 word) = 20"
    by (simp add: token_value_def upper_row_tokens_def nat_of_digits_def digit_val_def)
  note inst = upper_row_example [where ?'w = 32 and lm = exact_cmath and rd = no_node and ?cv0.0 = 0
      and input = upper_row_instance and dim_str = "''3''" and n = 3 and type = "''EXPLICIT''"
      and format = "''UPPER_ROW''" and toks = upper_row_tokens and k = 2]
  have 1: "new_tsplib_loader exact_cmath no_node (0 :: 32 word) upper_row_instance =
     Inr \<lparr>dimension = 3, ewt = EXPLICIT, ewf = UPPER_ROW,
          data_section = ''10 15 20\<newline>'',
          matrix = [[0, 10, 15], [10, 0, 20], [15, 20, 0]], nodes = []\<rparr>"
    using inst h by blast
  have 2: "\<exists>L. new_tsplib_loader exact_cmath no_node (0 :: 32 word) upper_row_instance = Inr L \<and>
        dimension L = 3 \<and> matrix L ! 1 ! 2 = 20 \<and> matrix L ! 2 ! 1 = 20"
    using inst upper_row_header(1-3) stoul_small(3) explicit_words(1,2) t upper_row_tokens_ok c
    by (simp add: p v)
  show ?thesis
    using h 1 t upper_row_tokens_ok c p v 2 by blast
qed

text \<open>
  C8. For every non-empty tour over the cities of a constructed loader, \<open>get_route\<close>
  emits the key \<open>"tour"\<close> with the array of the ranks \<open>step + 1\<close> in visit order (one
  item per step, each the decimal representation of \<open>step + 1\<close>), preceded by the key
  \<open>"route"\<close> with the \<open>[x,y]\<close> pairs in visit order if and only if the edge-weight type
  is not EXPLICIT.
\<close>

theorem get_route_nonempty:
  assumes "new_tsplib_loader lm rd cv0 input = Inr L" and "tour \<noteq> []"
    and "list_all (\<lambda>step. step < dimension L) tour"
  shows "get_route L tour =
         Some ((if ewt L = EXPLICIT then []
                else ''\"route\":['' @
                     comma_separated
                       (map (\<lambda>step. ''['' @ to_string_double (node_x (nodes L ! step)) @ '','' @
                                     to_string_double (node_y (nodes L ! step)) @ '']'') tour) @
                     ''],'') @
               ''\"tour\":['' @ comma_separated (map (\<lambda>step. to_string_nat (step + 1)) tour) @
               ''],'') \<and>
         list_all (\<lambda>step. nat_of_digits (to_string_nat (step + 1)) = step + 1) tour"
proof (intro conjI)
  show "list_all (\<lambda>step. nat_of_digits (to_string_nat (step + 1)) = step + 1) tour"
    by (simp add: list_all_iff nat_of_digits_to_string_nat)
next
  have t: "pop_back (foldl (\<lambda>result step. result @ to_string_nat (step + 1) @ '','') acc tour) =
           acc @ comma_separated (map (\<lambda>step. to_string_nat (step + 1)) tour)" for acc
    using assms(2) by (rule pop_back_loop)
  have r: "pop_back (foldl (\<lambda>route step. route @ ''['' @ to_string_double (node_x (nodes L ! step)) @
                                '','' @ to_string_double (node_y (nodes L ! step)) @ ''],'')
                       acc tour) =
           acc @ comma_separated
                   (map (\<lambda>step. ''['' @ to_string_double (node_x (nodes L ! step)) @ '','' @
                                 to_string_double (node_y (nodes L ! step)) @ '']'') tour)" for acc
    using pop_back_loop [OF assms(2),
        of "\<lambda>step. ''['' @ to_string_double (node_x (nodes L ! step)) @ '','' @
                    to_string_double (node_y (nodes L ! step)) @ '']''" acc]
    by simp
  show "get_route L tour =
         Some ((if ewt L = EXPLICIT then []
                else ''\"route\":['' @
                     comma_separated
                       (map (\<lambda>step. ''['' @ to_string_double (node_x (nodes L ! step)) @ '','' @
                                     to_string_double (node_y (nodes L ! step)) @ '']'') tour) @
                     ''],'') @
               ''\"tour\":['' @ comma_separated (map (\<lambda>step. to_string_nat (step + 1)) tour) @
               ''],'')"
  proof (cases "ewt L = EXPLICIT")
    case True
    then show ?thesis
      unfolding get_route_def Let_def t by simp
  next
    case False
    then have "length (nodes L) = dimension L" and "ewt L \<noteq> EWT_NONE"
      using loader_nodes [OF assms(1)] by simp_all
    then show ?thesis
      using False assms(3) unfolding get_route_def Let_def t r by simp
  qed
qed

theorem get_route_nonempty_witness:
  "new_tsplib_loader exact_cmath no_node 0 upper_row_instance = Inr upper_row_loader \<and>
   [0, 2, 1] \<noteq> ([] :: nat list) \<and>
   list_all (\<lambda>step. step < dimension upper_row_loader) [0, 2, 1] \<and>
   get_route upper_row_loader [0, 2, 1] = Some ''\"tour\":[1,3,2],'' \<and>
   new_tsplib_loader exact_cmath read_integer_node 0 att_instance = Inr att_loader \<and>
   [1, 0] \<noteq> ([] :: nat list) \<and>
   list_all (\<lambda>step. step < dimension att_loader) [1, 0] \<and>
   get_route att_loader [1, 0] =
     Some ''\"route\":[[1.000000,0.000000],[0.000000,0.000000]],\"tour\":[2,1],''"
proof -
  have l1: "new_tsplib_loader exact_cmath no_node 0 upper_row_instance = Inr upper_row_loader"
    by (rule upper_row_load_32)
  have t1: "[0, 2, 1] \<noteq> ([] :: nat list)"
    and d1: "list_all (\<lambda>step. step < dimension upper_row_loader) [0, 2, 1]"
    by (simp_all add: upper_row_loader_def)
  have l2: "new_tsplib_loader exact_cmath read_integer_node 0 att_instance = Inr att_loader"
    by (rule att_instance_load)
  have t2: "[1, 0] \<noteq> ([] :: nat list)"
    and d2: "list_all (\<lambda>step. step < dimension att_loader) [1, 0]"
    by (simp_all add: att_loader_def)
  have r1: "get_route upper_row_loader [0, 2, 1] = Some ''\"tour\":[1,3,2],''"
    using get_route_nonempty [OF l1 t1 d1]
    by (simp add: upper_row_loader_def to_string_nat_small)
  have r2: "get_route att_loader [1, 0] =
            Some ''\"route\":[[1.000000,0.000000],[0.000000,0.000000]],\"tour\":[2,1],''"
    using get_route_nonempty [OF l2 t2 d2]
    by (simp add: att_loader_def to_string_nat_small to_string_double_small)
  show ?thesis
    using l1 t1 d1 r1 l2 t2 d2 r2 by blast
qed

text \<open>
  C9. The claim is that an input whose DIMENSION is 0 is rejected. The constructor has
  no test of the dimension: \<open>dim_rgx\<close> accepts the digit 0 and \<^verbatim>\<open>std::stoul\<close> returns 0.
  What holds: with DIMENSION 0 the constructor throws only for the reasons that apply to
  any dimension (edge-weight type, format or data section not accepted) and otherwise
  completes with \<open>N = 0\<close> and the empty matrix. The format UPPER\_ROW, whose loop bound
  \<^verbatim>\<open>_dimension - 1\<close> wraps around for \<open>N = 0\<close>, is left out of the statement.
\<close>

theorem dimension_zero_accepted:
  assumes "regex_search dim_rgx input = Some dim_str" and "stoul dim_str = Inr 0"
    and "regex_search ewt_rgx input = Some type"
    and "map_option ewf_of (regex_search ewf_rgx input) \<noteq> Some UPPER_ROW"
  shows "new_tsplib_loader lm rd cv0 input =
         (if ewt_of type = EWT_NONE then Inl (Unsupported_EDGE_WEIGHT_TYPE type)
          else if ewt_of type = EXPLICIT then
            (case regex_search ewf_rgx input of
               None \<Rightarrow> Inl Incorrect_EDGE_WEIGHT_FORMAT
             | Some format \<Rightarrow>
                 if ewf_of format = EWF_NONE then Inl (Unsupported_EDGE_WEIGHT_FORMAT format)
                 else
                   (case regex_search ews_rgx input of
                      None \<Rightarrow> Inl Incorrect_EDGE_WEIGHT_SECTION
                    | Some ds \<Rightarrow>
                        Inr \<lparr>dimension = 0, ewt = EXPLICIT, ewf = ewf_of format,
                             data_section = ds, matrix = [], nodes = []\<rparr>))
          else
            (case regex_search ncs_rgx input of
               None \<Rightarrow> Inl Incorrect_NODE_COORD_SECTION
             | Some ds \<Rightarrow>
                 Inr \<lparr>dimension = 0, ewt = ewt_of type, ewf = EWF_NONE, data_section = ds,
                      matrix = [], nodes = []\<rparr>))"
proof (cases "ewt_of type = EWT_NONE \<or> ewt_of type = EXPLICIT")
  case True
  then show ?thesis
    using assms
    by (auto simp: new_tsplib_loader_def new_matrix_small fill_explicit_zero
             split: option.splits)
next
  case False
  then obtain f :: "Node \<Rightarrow> Node \<Rightarrow> 'a word option" where "dist_f lm (ewt_of type) = Some f"
    using dist_f_Some by blast
  then show ?thesis
    using assms False
    by (auto simp: new_tsplib_loader_def new_matrix_small read_nodes_zero fill_coords_zero
             split: option.splits)
qed

theorem dimension_zero_accepted_witness:
  "regex_search dim_rgx dimension_zero = Some ''0'' \<and> stoul ''0'' = Inr 0 \<and>
   regex_search ewt_rgx dimension_zero = Some ''EXPLICIT'' \<and>
   map_option ewf_of (regex_search ewf_rgx dimension_zero) \<noteq> Some UPPER_ROW \<and>
   new_tsplib_loader exact_cmath no_node (0 :: 32 word) dimension_zero =
     Inr \<lparr>dimension = 0, ewt = EXPLICIT, ewf = FULL_MATRIX, data_section = ''0\<newline>'',
          matrix = [], nodes = []\<rparr>"
proof -
  have f: "map_option ewf_of (regex_search ewf_rgx dimension_zero) \<noteq> Some UPPER_ROW"
    by (simp add: dimension_zero_header explicit_words)
  show ?thesis
    using dimension_zero_accepted
      [OF dimension_zero_header(1) stoul_small(1) dimension_zero_header(2) f,
       of exact_cmath no_node "0 :: 32 word"]
    by (simp add: dimension_zero_header stoul_small explicit_words)
qed

text \<open>
  C9, counterexample: the input with \<open>DIMENSION: 0\<close>, FULL\_MATRIX and a data section is
  loaded, with dimension 0 and the empty matrix.
\<close>

theorem dimension_zero_not_rejected:
  "new_tsplib_loader exact_cmath no_node 0 dimension_zero = Inr dimension_zero_loader \<and>
   dimension dimension_zero_loader = 0 \<and> matrix dimension_zero_loader = []"
  by (simp add: dimension_zero_load) (simp add: dimension_zero_loader_def)

text \<open>
  C10. Called with the empty tour, \<open>get_route\<close> returns a malformed fragment: the
  \<^verbatim>\<open>pop_back\<close> meant for the trailing comma removes the opening bracket, and the result
  is \<open>"tour":],\<close> for an EXPLICIT instance and \<open>"route":],"tour":],\<close> for a
  coordinate-based one.
\<close>

theorem get_route_empty:
  "get_route L [] =
   Some (if ewt L \<noteq> EWT_NONE \<and> ewt L \<noteq> EXPLICIT then ''\"route\":],\"tour\":],''
         else ''\"tour\":],'')"
  by (simp add: get_route_def pop_back_def)

theorem get_route_empty_witness:
  "get_route upper_row_loader [] = Some ''\"tour\":],'' \<and>
   get_route att_loader [] = Some ''\"route\":],\"tour\":],''"
  using get_route_empty [of upper_row_loader] get_route_empty [of att_loader]
  by (simp add: upper_row_loader_def att_loader_def)

end
